theory Spec2Isabelle
  imports Main "HOL-Library.Sublist" "HOL-Library.Multiset" "HOL-Library.Word"
begin

section \<open>Strings and the library functions \<open>chunkText\<close> calls\<close>

text \<open>
  A Go \<open>string\<close> is a sequence of bytes and \<open>len\<close> counts bytes, so a Go string is a
  \<^typ>\<open>string\<close> here (a list of 8-bit \<^typ>\<open>char\<close>s) and \<open>len\<close> is \<^const>\<open>length\<close>.
  \<open>main.go\<close> calls \<open>strings.LastIndex\<close> and \<open>strings.TrimSpace\<close> of the Go standard
  library; both are modelled after their documented behaviour.

  \<open>strings.TrimSpace\<close> removes all leading and trailing white space, as
  \<open>unicode.IsSpace\<close> defines it: the code points of Unicode's White_Space property.
  The list below gives the UTF-8 encoding of each of them. Go decodes a string left to
  right; a byte of these encodings that is not the first one is a continuation byte
  (\<open>0x80\<close> to \<open>0xBF\<close>) and the first one never is, so a white-space rune sits at a
  position exactly when one of these byte sequences starts there. Bytes that are not
  valid UTF-8 decode to U+FFFD, which is not white space.
\<close>

definition wsRunes :: "string list" where
  "wsRunes =
    [ [CHR 0x09], [CHR 0x0A], [CHR 0x0B], [CHR 0x0C], [CHR 0x0D], [CHR 0x20],
      [CHR 0xC2, CHR 0x85], [CHR 0xC2, CHR 0xA0],
      [CHR 0xE1, CHR 0x9A, CHR 0x80],
      [CHR 0xE2, CHR 0x80, CHR 0x80], [CHR 0xE2, CHR 0x80, CHR 0x81],
      [CHR 0xE2, CHR 0x80, CHR 0x82], [CHR 0xE2, CHR 0x80, CHR 0x83],
      [CHR 0xE2, CHR 0x80, CHR 0x84], [CHR 0xE2, CHR 0x80, CHR 0x85],
      [CHR 0xE2, CHR 0x80, CHR 0x86], [CHR 0xE2, CHR 0x80, CHR 0x87],
      [CHR 0xE2, CHR 0x80, CHR 0x88], [CHR 0xE2, CHR 0x80, CHR 0x89],
      [CHR 0xE2, CHR 0x80, CHR 0x8A],
      [CHR 0xE2, CHR 0x80, CHR 0xA8], [CHR 0xE2, CHR 0x80, CHR 0xA9],
      [CHR 0xE2, CHR 0x80, CHR 0xAF],
      [CHR 0xE2, CHR 0x81, CHR 0x9F],
      [CHR 0xE3, CHR 0x80, CHR 0x80] ]"

text \<open>The number of bytes of the white-space rune a string starts with, 0 when it starts
  with none; and the same for the rune it ends with. \<open>TrimSpace\<close> removes the leading
  white-space runes, then the trailing ones.\<close>

definition wsLen :: "string \<Rightarrow> nat" where
  "wsLen s = (case find (\<lambda>p. prefix p s) wsRunes of None \<Rightarrow> 0 | Some p \<Rightarrow> length p)"

definition wsLenR :: "string \<Rightarrow> nat" where
  "wsLenR s = (case find (\<lambda>p. suffix p s) wsRunes of None \<Rightarrow> 0 | Some p \<Rightarrow> length p)"

function trimLeft :: "string \<Rightarrow> string" where
  "trimLeft s = (if wsLen s = 0 \<or> s = [] then s else trimLeft (drop (wsLen s) s))"
  by pat_completeness auto
termination
  by (relation "measure length") auto

function trimRight :: "string \<Rightarrow> string" where
  "trimRight s =
     (if wsLenR s = 0 \<or> s = [] then s else trimRight (take (length s - wsLenR s) s))"
  by pat_completeness auto
termination
  by (relation "measure length") auto

declare trimLeft.simps [simp del] trimRight.simps [simp del]

definition TrimSpace :: "string \<Rightarrow> string" where
  "TrimSpace s = trimRight (trimLeft s)"

text \<open>\<open>strings.LastIndex(s, substr)\<close>: the index of the last instance of \<open>substr\<close> in
  \<open>s\<close>, or -1 when there is none. The candidates are tried from the end of \<open>s\<close>
  backwards.\<close>

fun lastIndexFrom :: "nat \<Rightarrow> string \<Rightarrow> string \<Rightarrow> int" where
  "lastIndexFrom 0 s substr = (if prefix substr s then 0 else - 1)"
| "lastIndexFrom (Suc i) s substr =
     (if prefix substr (drop (Suc i) s) then int (Suc i) else lastIndexFrom i s substr)"

definition LastIndex :: "string \<Rightarrow> string \<Rightarrow> int" where
  "LastIndex s substr = lastIndexFrom (length s) s substr"

section \<open>\<open>chunkText\<close>\<close>

text \<open>
  \<^verbatim>\<open>
  func chunkText(input string, size int) []string {
      var chunks []string
      for len(input) > size {
          split := strings.LastIndex(input[:size], " ")
          if split == -1 {
              split = size
          }
          chunks = append(chunks, strings.TrimSpace(input[:split]))
          input = strings.TrimSpace(input[split:])
      }
      if len(input) > 0 {
          chunks = append(chunks, input)
      }
      return chunks
  }
  \<close>
  The slice expression \<open>input[:size]\<close> panics for a negative \<open>size\<close>, and with
  \<open>size = 0\<close> the loop can run forever. The loop is therefore a partial function whose
  value \<open>None\<close> is "does not return", and the panic is a result of its own.
\<close>

datatype panic = SliceBoundsOutOfRange

definition splitPoint :: "string \<Rightarrow> int \<Rightarrow> int" where
  "splitPoint input sz =
     (let split = LastIndex (take (nat sz) input) '' '' in
      if split = - 1 then sz else split)"

partial_function (option) chunkLoop ::
  "string list \<Rightarrow> string \<Rightarrow> int \<Rightarrow> (panic + string list) option" where
  "chunkLoop chunks input sz =
     (if int (length input) > sz then
        if sz < 0 then Some (Inl SliceBoundsOutOfRange)
        else
          chunkLoop (chunks @ [TrimSpace (take (nat (splitPoint input sz)) input)])
            (TrimSpace (drop (nat (splitPoint input sz)) input)) sz
      else Some (Inr (if length input > 0 then chunks @ [input] else chunks)))"

declare chunkLoop.simps [code]

definition chunkText :: "string \<Rightarrow> int \<Rightarrow> (panic + string list) option" where
  "chunkText input sz = chunkLoop [] input sz"

subsection \<open>Errors, and \<open>makeChunks\<close>\<close>

datatype error =
    Canceled | DeadlineExceeded
  | ErrNilFile | ErrEmptyVoice | ErrEmptyLanguageCode
  | Library string
  | WithTrace error "string list"
  | Errorf string error

text \<open>\<open>Canceled\<close> and \<open>DeadlineExceeded\<close> are the two values of \<open>ctx.Err()\<close>,
  \<open>Library\<close> is an error of a library the program calls (the speech client, the
  operating system), \<open>WithTrace e inputs\<close> is \<open>motmedelErrors.NewWithTrace(e, inputs...)\<close>
  and \<open>Errorf msg e\<close> is \<open>fmt.Errorf(msg + ": %w", e)\<close>.

  \<open>makeChunks\<close> reads the whole text file and chunks it with the fixed size 4500.
  \<open>textFile\<close> is \<open>None\<close> for a nil pointer and otherwise what \<open>io.ReadAll\<close> returns.\<close>

definition makeChunks :: "(error + string) option \<Rightarrow> (panic + error + string list) option" where
  "makeChunks textFile =
     (case textFile of
        None \<Rightarrow> Some (Inr (Inl (WithTrace ErrNilFile [])))
      | Some (Inl err) \<Rightarrow> Some (Inr (Inl (WithTrace (Errorf ''io read all'' err) [])))
      | Some (Inr textBytes) \<Rightarrow> map_option (map_sum id Inr) (chunkText textBytes 4500))"

subsection \<open>The splits of a run, and white-space normalisation\<close>

text \<open>
  The same loop, recording with every chunk what happened at its split: \<open>onSpace\<close>, the
  byte at the split point is a space; \<open>wsCut\<close>, a white-space rune ends or starts at the
  split point, so that trimming removed white space there. The last chunk (the remainder
  that is appended after the loop) has no split.
\<close>

record piece =
  emitted :: string
  onSpace :: bool
  wsCut :: bool

definition pieceAt :: "string \<Rightarrow> nat \<Rightarrow> piece" where
  "pieceAt input split =
     \<lparr> emitted = TrimSpace (take split input),
       onSpace = (split < length input \<and> input ! split = CHR '' ''),
       wsCut = (wsLenR (take split input) > 0 \<or> wsLen (drop split input) > 0) \<rparr>"

partial_function (option) traceLoop ::
  "piece list \<Rightarrow> string \<Rightarrow> int \<Rightarrow> (panic + piece list) option" where
  "traceLoop pieces input sz =
     (if int (length input) > sz then
        if sz < 0 then Some (Inl SliceBoundsOutOfRange)
        else
          traceLoop (pieces @ [pieceAt input (nat (splitPoint input sz))])
            (TrimSpace (drop (nat (splitPoint input sz)) input)) sz
      else Some (Inr (if length input > 0
                      then pieces @ [\<lparr> emitted = input, onSpace = False, wsCut = False \<rparr>]
                      else pieces)))"

declare traceLoop.simps [code]

definition chunkTrace :: "string \<Rightarrow> int \<Rightarrow> (panic + piece list) option" where
  "chunkTrace input sz = traceLoop [] input sz"

text \<open>Concatenating the chunks in order, with a single space after every chunk whose split
  is selected by \<open>sep\<close>.\<close>

definition joinPieces :: "(piece \<Rightarrow> bool) \<Rightarrow> piece list \<Rightarrow> string" where
  "joinPieces sep ps = concat (map (\<lambda>p. emitted p @ (if sep p then '' '' else [])) ps)"

text \<open>
  White-space normalisation: a string is read left to right as white-space runes
  (\<open>None\<close>) and other bytes (\<open>Some c\<close>); its fields are the maximal runs of other bytes, as
  \<open>strings.Fields\<close> gives them; the normal form joins the fields with single spaces. Two
  strings have the same normal form exactly when they are equal after collapsing every
  run of white space to one space and trimming both ends.
\<close>

function toks :: "string \<Rightarrow> char option list" where
  "toks s =
     (case s of
        [] \<Rightarrow> []
      | c # cs \<Rightarrow> if wsLen s = 0 then Some c # toks cs else None # toks (drop (wsLen s) s))"
  by pat_completeness auto
termination
  by (relation "measure length") auto

declare toks.simps [simp del]

fun wordsT :: "char option list \<Rightarrow> string list" where
  "wordsT [] = [[]]"
| "wordsT (None # ts) = [] # wordsT ts"
| "wordsT (Some c # ts) = (c # hd (wordsT ts)) # tl (wordsT ts)"

definition fieldsT :: "char option list \<Rightarrow> string list" where
  "fieldsT ts = filter (\<lambda>w. w \<noteq> []) (wordsT ts)"

definition Fields :: "string \<Rightarrow> string list" where
  "Fields s = fieldsT (toks s)"

fun joinSpace :: "string list \<Rightarrow> string" where
  "joinSpace [] = []"
| "joinSpace [w] = w"
| "joinSpace (w # ws) = w @ '' '' @ joinSpace ws"

definition normalize :: "string \<Rightarrow> string" where
  "normalize s = joinSpace (Fields s)"

text \<open>Three notions the proofs use. A string is a white-space run when it reads as
  white-space runes only. A string has a safe start when it is empty or its first byte
  is not one of the bytes that follow the first byte of a white-space rune: no rune can
  then begin before such a string and end inside it. The pieces of a finished run are
  the pieces of the loop followed by the remainder, when it is not empty.\<close>

definition wsRun :: "string \<Rightarrow> bool" where
  "wsRun l \<longleftrightarrow> set (toks l) \<subseteq> {None}"

definition safeStart :: "string \<Rightarrow> bool" where
  "safeStart v \<longleftrightarrow> (v = [] \<or> hd v \<notin> set (concat (map tl wsRunes)))"

definition finish :: "piece list \<Rightarrow> string \<Rightarrow> piece list" where
  "finish pieces input =
     (if length input > 0 then pieces @ [\<lparr> emitted = input, onSpace = False, wsCut = False \<rparr>]
      else pieces)"

section \<open>\<open>synthesizeChunks\<close>\<close>

text \<open>
  What the function does not own is a parameter of the model, the record \<open>world\<close>:
  \<^item> \<open>ctxErr k\<close> is what the \<open>k\<close>-th call of \<open>ctx.Err()\<close> returns: call 0 is the guard at
    the top, call \<open>i + 1\<close> the one in the loop's iteration for chunk \<open>i\<close> (a context can
    be cancelled at any moment by its owner);
  \<^item> \<open>NewClient\<close> is the error of \<open>texttospeech.NewClient\<close>, if any;
  \<^item> \<open>SynthesizeSpeech done request\<close> is the answer of the remote service to one call of
    \<open>client.SynthesizeSpeech(errGroupCtx, request)\<close>, where \<open>done\<close> says whether the
    group has already cancelled \<open>errGroupCtx\<close> (a task has failed).
  The log lines (\<open>slog\<close>) are not modelled, nor is the deferred \<open>client.Close()\<close>, whose
  error is only logged.

  The closures passed to \<open>errGroup.Go\<close> run concurrently. Each closure owns its \<open>i\<close> and
  its \<open>chunk\<close> (since Go 1.22 the variables of a \<open>for\<close> loop are per iteration), touches
  the shared state only by writing slot \<open>i\<close> of \<open>chunkMap\<close> after its call has returned,
  and returns its error to the group, which keeps the first one and cancels
  \<open>errGroupCtx\<close>. The loop itself looks at \<open>ctx\<close>, not at \<open>errGroupCtx\<close>, so a failed
  task does not stop it. A run is therefore determined by the order in which the launched
  tasks complete: \<open>order\<close> maps the list of launched tasks to that order, and every
  permutation is a possible run (the model says nothing about an \<open>order\<close> that is not a
  permutation).

  A nil \<open>[][]byte\<close> result is \<open>None\<close>. A slot of \<open>chunkMap\<close> that no task has written
  is a nil \<open>[]byte\<close>; it is the empty byte sequence here (a nil and an empty slice both
  have length 0 and write nothing).
\<close>

type_synonym bytes = "8 word list"

datatype AudioEncoding = MP3

record SynthesizeSpeechRequest =
  Text :: string
  LanguageCode :: string
  Name :: string
  AudioEncoding :: AudioEncoding

record world =
  ctxErr :: "nat \<Rightarrow> error option"
  NewClient :: "error option"
  SynthesizeSpeech :: "bool \<Rightarrow> SynthesizeSpeechRequest \<Rightarrow> error + bytes"

record group =
  chunkMap :: "bytes list"
  groupErr :: "error option"

text \<open>The loop at lines 67 to 102: the tasks it launches, in index order. It stops at the
  first iteration that finds the context cancelled.\<close>

fun launched :: "world \<Rightarrow> (nat \<times> string) list \<Rightarrow> (nat \<times> string) list" where
  "launched w [] = []"
| "launched w ((i, chunk) # rest) =
     (if ctxErr w (Suc i) \<noteq> None then [] else (i, chunk) # launched w rest)"

text \<open>One task, from its call to its return (lines 73 to 100).\<close>

definition task :: "world \<Rightarrow> string \<Rightarrow> string \<Rightarrow> nat \<times> string \<Rightarrow> group \<Rightarrow> group" where
  "task w voice languageCode ic g =
     (case SynthesizeSpeech w (groupErr g \<noteq> None)
             \<lparr> Text = snd ic, LanguageCode = languageCode, Name = voice,
               AudioEncoding = MP3 \<rparr> of
        Inl err \<Rightarrow>
          g \<lparr> groupErr :=
               (case groupErr g of
                  None \<Rightarrow> Some (WithTrace (Errorf ''text to speech synthesize speech'' err)
                                  [snd ic, languageCode, voice])
                | Some first \<Rightarrow> Some first) \<rparr>
      | Inr audioContent \<Rightarrow> g \<lparr> chunkMap := (chunkMap g)[fst ic := audioContent] \<rparr>)"

definition synthesizeChunks ::
  "world \<Rightarrow> ((nat \<times> string) list \<Rightarrow> (nat \<times> string) list) \<Rightarrow>
   string list \<Rightarrow> string \<Rightarrow> string \<Rightarrow> bytes list option \<times> error option" where
  "synthesizeChunks w order chunks voice languageCode =
     (if ctxErr w 0 \<noteq> None then (None, ctxErr w 0)
      else if voice = [] then (None, Some (WithTrace ErrEmptyVoice []))
      else if languageCode = [] then (None, Some (WithTrace ErrEmptyLanguageCode []))
      else if length chunks = 0 then (None, None)
      else
        case NewClient w of
          Some err \<Rightarrow> (None, Some (WithTrace (Errorf ''text to speech new client'' err) []))
        | None \<Rightarrow>
            let g = fold (task w voice languageCode)
                      (order (launched w (enumerate 0 chunks)))
                      \<lparr> chunkMap = replicate (length chunks) [], groupErr = None \<rparr>
            in case groupErr g of
                 Some err \<Rightarrow> (None, Some (Errorf ''err group wait'' err))
               | None \<Rightarrow> (Some (chunkMap g), None))"

section \<open>The output loop of \<open>main\<close>\<close>

text \<open>
  \<^verbatim>\<open>
  for _, chunk := range chunkMap {
      if _, err := outFile.Write(chunk); err != nil {
          logger.Error("An error occurred when writing a chunk to the out file.", err)
      }
  }
  \<close>
  The output file is the list of the \<open>Write\<close> calls made on it, the bytes that reached
  it, and the errors logged. \<open>wr k b\<close> is what the operating system does with the
  \<open>k\<close>-th call, of payload \<open>b\<close>: the number of bytes it writes and its error, if any.
\<close>

record outFile =
  calls :: "bytes list"
  content :: bytes
  logged :: "error list"

definition Write :: "(nat \<Rightarrow> bytes \<Rightarrow> nat \<times> error option) \<Rightarrow> bytes \<Rightarrow> outFile \<Rightarrow> outFile" where
  "Write wr b f =
     (let (n, err) = wr (length (calls f)) b;
          f' = f \<lparr> calls := calls f @ [b], content := content f @ take n b \<rparr>
      in case err of None \<Rightarrow> f' | Some e \<Rightarrow> f' \<lparr> logged := logged f' @ [e] \<rparr>)"

definition writeChunkMap ::
  "(nat \<Rightarrow> bytes \<Rightarrow> nat \<times> error option) \<Rightarrow> bytes list option \<Rightarrow> outFile \<Rightarrow> outFile" where
  "writeChunkMap wr result f =
     fold (Write wr) (case result of None \<Rightarrow> [] | Some m \<Rightarrow> m) f"

text \<open>An operating system that writes every payload in full.\<close>

definition writesAll :: "nat \<Rightarrow> bytes \<Rightarrow> nat \<times> error option" where
  "writesAll k b = (length b, None)"

section \<open>Concrete collaborators, for the examples\<close>

text \<open>A world whose context is never cancelled and whose client can be created; a
  service that answers every request with the bytes of its text, and one that fails on
  the text \<open>bad\<close>; the result of a run read as a sequence (nil is the empty sequence);
  a new, empty output file.\<close>

definition liveWorld :: "(bool \<Rightarrow> SynthesizeSpeechRequest \<Rightarrow> error + bytes) \<Rightarrow> world" where
  "liveWorld service = \<lparr> ctxErr = (\<lambda>k. None), NewClient = None, SynthesizeSpeech = service \<rparr>"

definition audioOf :: "string \<Rightarrow> string \<Rightarrow> string \<Rightarrow> bytes" where
  "audioOf text voice languageCode = map (\<lambda>c. of_nat (of_char c)) text"

definition echoService :: "bool \<Rightarrow> SynthesizeSpeechRequest \<Rightarrow> error + bytes" where
  "echoService done request = Inr (audioOf (Text request) (Name request) (LanguageCode request))"

definition failingService :: "bool \<Rightarrow> SynthesizeSpeechRequest \<Rightarrow> error + bytes" where
  "failingService done request =
     (if Text request = ''bad'' then Inl (Library ''unavailable'') else echoService done request)"

definition sequenceOf :: "bytes list option \<Rightarrow> bytes list" where
  "sequenceOf result = (case result of None \<Rightarrow> [] | Some m \<Rightarrow> m)"

definition newFile :: outFile where
  "newFile = \<lparr> calls = [], content = [], logged = [] \<rparr>"

section \<open>Properties of \<open>chunkText\<close>\<close>

subsection \<open>The split point\<close>

lemma prefix_space_drop:
  "prefix [c] (drop j s) \<longleftrightarrow> j < length s \<and> s ! j = c"
proof (cases "j < length s")
  case True
  then have "drop j s = s ! j # drop (Suc j) s" by (simp add: Cons_nth_drop_Suc)
  with True show ?thesis by auto
next
  case False
  then show ?thesis by simp
qed

lemma lastIndexFrom_none:
  "lastIndexFrom i s [c] = - 1 \<longleftrightarrow> (\<forall>j \<le> i. \<not> (j < length s \<and> s ! j = c))"
proof (induction i)
  case 0
  show ?case using prefix_space_drop[of c 0 s] by auto
next
  case (Suc i)
  show ?case using Suc prefix_space_drop[of c "Suc i" s] by (auto simp: le_Suc_eq)
qed

lemma lastIndexFrom_some:
  "lastIndexFrom i s [c] \<noteq> - 1 \<Longrightarrow>
     \<exists>k \<le> i. lastIndexFrom i s [c] = int k \<and> k < length s \<and> s ! k = c \<and>
       (\<forall>j. k < j \<and> j \<le> i \<longrightarrow> \<not> (j < length s \<and> s ! j = c))"
proof (induction i)
  case 0
  then show ?case using prefix_space_drop[of c 0 s] by (auto split: if_splits)
next
  case (Suc i)
  show ?case
  proof (cases "prefix [c] (drop (Suc i) s)")
    case True
    then show ?thesis using prefix_space_drop[of c "Suc i" s]
      by (intro exI[of _ "Suc i"]) auto
  next
    case False
    with Suc.prems have "lastIndexFrom i s [c] \<noteq> - 1" by simp
    from Suc.IH[OF this] obtain k where k: "k \<le> i" "lastIndexFrom i s [c] = int k" "k < length s" "s ! k = c"
      "\<forall>j. k < j \<and> j \<le> i \<longrightarrow> \<not> (j < length s \<and> s ! j = c)" by blast
    from False have "\<not> (Suc i < length s \<and> s ! Suc i = c)"
      using prefix_space_drop[of c "Suc i" s] by simp
    with k False show ?thesis
      by (intro exI[of _ k]) (auto simp: le_Suc_eq)
  qed
qed

lemma LastIndex_none: "LastIndex s [c] = - 1 \<longleftrightarrow> c \<notin> set s"
proof -
  have "(\<forall>j \<le> length s. \<not> (j < length s \<and> s ! j = c)) \<longleftrightarrow> (\<forall>j < length s. s ! j \<noteq> c)"
    using less_imp_le_nat by blast
  also have "\<dots> \<longleftrightarrow> c \<notin> set s" by (metis in_set_conv_nth)
  finally show ?thesis by (simp add: LastIndex_def lastIndexFrom_none)
qed

lemma LastIndex_some:
  assumes "LastIndex s [c] \<noteq> - 1"
  shows "\<exists>k < length s. LastIndex s [c] = int k \<and> s ! k = c \<and> (\<forall>j. k < j \<and> j < length s \<longrightarrow> s ! j \<noteq> c)"
  using lastIndexFrom_some[of "length s" s c] assms unfolding LastIndex_def by fastforce

lemma splitPoint_cases:
  assumes "0 < sz" and "sz < int (length input)"
  shows "(CHR '' '' \<notin> set (take (nat sz) input) \<and> splitPoint input sz = sz) \<or>
         (\<exists>k < nat sz. splitPoint input sz = int k \<and> input ! k = CHR '' '' \<and>
            (\<forall>j. k < j \<and> j < nat sz \<longrightarrow> input ! j \<noteq> CHR '' ''))"
proof (cases "LastIndex (take (nat sz) input) '' '' = - 1")
  case True
  then show ?thesis by (simp add: splitPoint_def LastIndex_none)
next
  case False
  from LastIndex_some[OF False] obtain k where k: "k < length (take (nat sz) input)"
    "LastIndex (take (nat sz) input) '' '' = int k" "take (nat sz) input ! k = CHR '' ''"
    "\<forall>j. k < j \<and> j < length (take (nat sz) input) \<longrightarrow> take (nat sz) input ! j \<noteq> CHR '' ''"
    by blast
  from assms have len: "length (take (nat sz) input) = nat sz" by simp
  have "splitPoint input sz = int k" using False k(2) by (simp add: splitPoint_def)
  moreover have "k < nat sz" using k(1) len by simp
  moreover have "input ! k = CHR '' ''" using k(1,3) by simp
  moreover have "\<forall>j. k < j \<and> j < nat sz \<longrightarrow> input ! j \<noteq> CHR '' ''"
    using k(4) len by auto
  ultimately show ?thesis by blast
qed

lemma splitPoint_range:
  assumes "0 < sz" and "sz < int (length input)"
  shows "0 \<le> splitPoint input sz \<and> splitPoint input sz \<le> sz"
  using splitPoint_cases[OF assms] assms by auto

subsection \<open>Trimming never lengthens, and every iteration shortens the input\<close>

lemma trimLeft_length: "length (trimLeft s) \<le> length s"
proof (induction s rule: trimLeft.induct)
  case (1 s)
  show ?case
  proof (cases "wsLen s = 0 \<or> s = []")
    case True
    then show ?thesis by (subst trimLeft.simps) simp
  next
    case False
    with 1 have "length (trimLeft (drop (wsLen s) s)) \<le> length (drop (wsLen s) s)" by simp
    with False show ?thesis by (subst trimLeft.simps) simp
  qed
qed

lemma trimRight_length: "length (trimRight s) \<le> length s"
proof (induction s rule: trimRight.induct)
  case (1 s)
  show ?case
  proof (cases "wsLenR s = 0 \<or> s = []")
    case True
    then show ?thesis by (subst trimRight.simps) simp
  next
    case False
    with 1 have "length (trimRight (take (length s - wsLenR s) s)) \<le> length (take (length s - wsLenR s) s)" by simp
    with False show ?thesis by (subst trimRight.simps) simp
  qed
qed

lemma TrimSpace_length: "length (TrimSpace s) \<le> length s"
  unfolding TrimSpace_def using trimRight_length[of "trimLeft s"] trimLeft_length[of s] by simp

lemma wsLen_space: "wsLen (CHR '' '' # s) = 1"
  by (simp add: wsLen_def wsRunes_def)

lemma trimLeft_space_shorter: "length (trimLeft (CHR '' '' # s)) < length (CHR '' '' # s)"
proof -
  have "trimLeft (CHR '' '' # s) = trimLeft s"
    by (subst trimLeft.simps) (simp add: wsLen_space)
  then show ?thesis using trimLeft_length[of s] by simp
qed

lemma rest_shorter:
  assumes "0 < sz" and "sz < int (length input)"
  shows "length (TrimSpace (drop (nat (splitPoint input sz)) input)) < length input"
proof (cases "splitPoint input sz = 0")
  case True
  with splitPoint_cases[OF assms] assms(1) have "input ! 0 = CHR '' ''" by auto
  moreover from assms have "input \<noteq> []" by auto
  ultimately obtain s where s: "input = CHR '' '' # s" by (cases input) auto
  have "length (TrimSpace input) \<le> length (trimLeft input)"
    unfolding TrimSpace_def by (rule trimRight_length)
  also have "\<dots> < length input" unfolding s by (rule trimLeft_space_shorter)
  finally show ?thesis using True by simp
next
  case False
  with splitPoint_range[OF assms] have "0 < nat (splitPoint input sz)" by simp
  with assms have "length (drop (nat (splitPoint input sz)) input) < length input" by simp
  with TrimSpace_length[of "drop (nat (splitPoint input sz)) input"] show ?thesis by simp
qed

text \<open>The loop rule: for a positive size the loop returns, and an invariant of its body
  holds of the chunks and the remainder it ends with.\<close>

lemma chunkLoop_rule:
  fixes I :: "string list \<Rightarrow> string \<Rightarrow> bool"
  assumes "0 < sz" and "I chunks input"
    and step: "\<And>chunks input. I chunks input \<Longrightarrow> sz < int (length input) \<Longrightarrow>
           I (chunks @ [TrimSpace (take (nat (splitPoint input sz)) input)])
             (TrimSpace (drop (nat (splitPoint input sz)) input))"
  shows "\<exists>chunks' input'. I chunks' input' \<and> int (length input') \<le> sz \<and>
           chunkLoop chunks input sz =
             Some (Inr (if length input' > 0 then chunks' @ [input'] else chunks'))"
  using assms(2)
proof (induction "length input" arbitrary: chunks input rule: less_induct)
  case less
  show ?case
  proof (cases "sz < int (length input)")
    case False
    then have "chunkLoop chunks input sz = Some (Inr (if length input > 0 then chunks @ [input] else chunks))"
      by (subst chunkLoop.simps) simp
    with False less.prems show ?thesis by (intro exI[of _ chunks] exI[of _ input]) simp
  next
    case True
    let ?c = "chunks @ [TrimSpace (take (nat (splitPoint input sz)) input)]"
    let ?r = "TrimSpace (drop (nat (splitPoint input sz)) input)"
    have "length ?r < length input" by (rule rest_shorter[OF assms(1) True])
    moreover have "I ?c ?r" by (rule step[OF less.prems True])
    ultimately obtain chunks' input' where r: "I chunks' input'" "int (length input') \<le> sz"
      "chunkLoop ?c ?r sz = Some (Inr (if length input' > 0 then chunks' @ [input'] else chunks'))"
      using less.hyps by blast
    have "chunkLoop chunks input sz = chunkLoop ?c ?r sz"
      using True assms(1) by (subst chunkLoop.simps) simp
    with r show ?thesis by (intro exI[of _ chunks'] exI[of _ input']) simp
  qed
qed

subsection \<open>C4: no chunk is longer than the size\<close>

text \<open>
  Claim C4. For every text and every positive size, \<open>chunkText\<close> returns, and every
  chunk it returns has at most \<open>size\<close> bytes. (The claim asks for a non-empty text; the
  empty text returns no chunk at all.)
\<close>

theorem chunkText_bounded:
  assumes "0 < sz"
  shows "\<exists>chunks. chunkText input sz = Some (Inr chunks) \<and> (\<forall>c \<in> set chunks. int (length c) \<le> sz)"
proof -
  have init: "\<forall>c \<in> set ([] :: string list). int (length c) \<le> sz" by simp
  have "\<exists>chunks' input'. (\<forall>c \<in> set chunks'. int (length c) \<le> sz) \<and> int (length input') \<le> sz \<and>
           chunkLoop [] input sz =
             Some (Inr (if length input' > 0 then chunks' @ [input'] else chunks'))"
  proof (rule chunkLoop_rule[where I = "\<lambda>chunks input. \<forall>c \<in> set chunks. int (length c) \<le> sz", OF assms init])
    fix chunks :: "string list" and input :: string
    assume I: "\<forall>c \<in> set chunks. int (length c) \<le> sz" and long: "sz < int (length input)"
    have "length (TrimSpace (take (nat (splitPoint input sz)) input)) \<le> nat (splitPoint input sz)"
      using TrimSpace_length[of "take (nat (splitPoint input sz)) input"] by simp
    with splitPoint_range[OF assms long]
    have "int (length (TrimSpace (take (nat (splitPoint input sz)) input))) \<le> sz" by linarith
    with I show "\<forall>c \<in> set (chunks @ [TrimSpace (take (nat (splitPoint input sz)) input)]). int (length c) \<le> sz"
      by simp
  qed
  then show ?thesis unfolding chunkText_def by auto
qed

theorem chunkText_bounded_witness:
  "chunkText ''the quick brown fox jumps'' 10 = Some (Inr [''the quick'', ''brown fox'', ''jumps'']) \<and>
   list_all (\<lambda>c. int (length c) \<le> 10) [''the quick'', ''brown fox'', ''jumps'']"
proof -
  have e: "chunkText ''the quick brown fox jumps'' 10 = Some (Inr [''the quick'', ''brown fox'', ''jumps''])"
    by code_simp
  from chunkText_bounded[of 10 "''the quick brown fox jumps''"]
  obtain chunks where "chunkText ''the quick brown fox jumps'' 10 = Some (Inr chunks)"
    "\<forall>c \<in> set chunks. int (length c) \<le> 10" by auto
  with e have "list_all (\<lambda>c. int (length c) \<le> 10) [''the quick'', ''brown fox'', ''jumps'']"
    by (simp add: list_all_iff)
  with e show ?thesis by simp
qed

subsection \<open>C7: where an iteration splits\<close>

text \<open>
  Claim C7, as stated, splits at the last white-space character of the window. The code
  looks for the space character only. The window of 4 bytes of \<open>ab\ncdef\<close> holds a
  white-space character (the line feed, at index 2) and no space: the split is made at
  4, and the chunk that is emitted contains the line feed.
\<close>

theorem chunkLoop_split_counterexample:
  "wsLen (drop 2 [CHR ''a'', CHR ''b'', CHR 0x0A, CHR ''c'', CHR ''d'', CHR ''e'', CHR ''f'']) = 1 \<and>
   splitPoint [CHR ''a'', CHR ''b'', CHR 0x0A, CHR ''c'', CHR ''d'', CHR ''e'', CHR ''f''] 4 = 4 \<and>
   chunkText [CHR ''a'', CHR ''b'', CHR 0x0A, CHR ''c'', CHR ''d'', CHR ''e'', CHR ''f''] 4 =
     Some (Inr [[CHR ''a'', CHR ''b'', CHR 0x0A, CHR ''c''], ''def''])"
  by code_simp

text \<open>
  Claim C7, amended. In every iteration of the loop (the remaining text is longer than a
  positive \<open>size\<close>), when the window of the first \<open>size\<close> bytes contains a space
  character (byte \<open>0x20\<close>), the split point is the index of the last space in the window;
  only when the window contains no space is the split point \<open>size\<close>. The chunk that is
  emitted is the text before the split point, trimmed, so the space at the split point
  is not part of it, and the loop goes on with the text from the split point on, trimmed.
\<close>

theorem chunkLoop_split:
  assumes "0 < sz" and "sz < int (length input)"
  shows "(if CHR '' '' \<in> set (take (nat sz) input)
          then \<exists>k < nat sz. splitPoint input sz = int k \<and> input ! k = CHR '' '' \<and>
                 (\<forall>j. k < j \<and> j < nat sz \<longrightarrow> input ! j \<noteq> CHR '' '')
          else splitPoint input sz = sz) \<and>
         chunkLoop chunks input sz =
           chunkLoop (chunks @ [TrimSpace (take (nat (splitPoint input sz)) input)])
             (TrimSpace (drop (nat (splitPoint input sz)) input)) sz"
proof
  from splitPoint_cases[OF assms]
  show "if CHR '' '' \<in> set (take (nat sz) input)
          then \<exists>k < nat sz. splitPoint input sz = int k \<and> input ! k = CHR '' '' \<and>
                 (\<forall>j. k < j \<and> j < nat sz \<longrightarrow> input ! j \<noteq> CHR '' '')
          else splitPoint input sz = sz"
  proof
    assume "CHR '' '' \<notin> set (take (nat sz) input) \<and> splitPoint input sz = sz"
    then show ?thesis by simp
  next
    assume *: "\<exists>k < nat sz. splitPoint input sz = int k \<and> input ! k = CHR '' '' \<and>
            (\<forall>j. k < j \<and> j < nat sz \<longrightarrow> input ! j \<noteq> CHR '' '')"
    then obtain k where k: "k < nat sz" "input ! k = CHR '' ''" by blast
    with assms have "take (nat sz) input ! k = CHR '' ''" "k < length (take (nat sz) input)"
      by simp_all
    then have "CHR '' '' \<in> set (take (nat sz) input)" by (metis nth_mem)
    with * show ?thesis by simp
  qed
  show "chunkLoop chunks input sz =
           chunkLoop (chunks @ [TrimSpace (take (nat (splitPoint input sz)) input)])
             (TrimSpace (drop (nat (splitPoint input sz)) input)) sz"
    using assms by (subst chunkLoop.simps) simp
qed

theorem chunkLoop_split_witness:
  "splitPoint ''the quick brown fox jumps'' 10 = 9 \<and>
   chunkLoop [] ''the quick brown fox jumps'' 10 = chunkLoop [''the quick''] ''brown fox jumps'' 10 \<and>
   splitPoint ''abcdefgh'' 3 = 3 \<and>
   chunkLoop [] ''abcdefgh'' 3 = chunkLoop [''abc''] ''defgh'' 3"
proof -
  have a: "splitPoint ''the quick brown fox jumps'' 10 = 9" by code_simp
  have b: "TrimSpace ''the quick'' = ''the quick''" by code_simp
  have c: "TrimSpace '' brown fox jumps'' = ''brown fox jumps''" by code_simp
  have d: "splitPoint ''abcdefgh'' 3 = 3" by code_simp
  have e: "TrimSpace ''abc'' = ''abc''" by code_simp
  have f: "TrimSpace ''defgh'' = ''defgh''" by code_simp
  have "chunkLoop [] ''the quick brown fox jumps'' 10 = chunkLoop [''the quick''] ''brown fox jumps'' 10"
    using chunkLoop_split[of 10 "''the quick brown fox jumps''" "[]"] by (simp add: a b c)
  moreover have "chunkLoop [] ''abcdefgh'' 3 = chunkLoop [''abc''] ''defgh'' 3"
    using chunkLoop_split[of 3 "''abcdefgh''" "[]"] by (simp add: d e f)
  ultimately show ?thesis using a d by simp
qed

subsection \<open>White-space runes\<close>

lemma wsRunes_heads_all:
  "list_all (\<lambda>p. p \<noteq> [] \<and> hd p \<notin> set (concat (map tl wsRunes))) wsRunes"
  by code_simp

lemma wsRunes_prefix_free_all:
  "list_all (\<lambda>p. list_all (\<lambda>q. prefix p q \<longrightarrow> p = q) wsRunes) wsRunes"
  by code_simp

lemma wsRunes_nonempty: "p \<in> set wsRunes \<Longrightarrow> p \<noteq> []"
  using wsRunes_heads_all by (simp add: list_all_iff)

lemma wsRunes_head: "p \<in> set wsRunes \<Longrightarrow> hd p \<notin> set (concat (map tl wsRunes))"
  using wsRunes_heads_all by (simp add: list_all_iff)

lemma wsRunes_prefix_free:
  "p \<in> set wsRunes \<Longrightarrow> q \<in> set wsRunes \<Longrightarrow> prefix p q \<Longrightarrow> p = q"
  using wsRunes_prefix_free_all by (simp add: list_all_iff)

lemma space_rune: "'' '' \<in> set wsRunes"
  by (simp add: wsRunes_def)

lemma wsLen_pos:
  assumes "wsLen s > 0"
  shows "\<exists>p \<in> set wsRunes. prefix p s \<and> wsLen s = length p"
proof (cases "find (\<lambda>p. prefix p s) wsRunes")
  case None
  with assms show ?thesis by (simp add: wsLen_def)
next
  case (Some p)
  then have "p \<in> set wsRunes" "prefix p s"
    by (auto simp: find_Some_iff)
  with Some show ?thesis by (auto simp: wsLen_def)
qed

lemma wsLen_eq:
  assumes "p \<in> set wsRunes" and "prefix p s"
  shows "wsLen s = length p"
proof (cases "find (\<lambda>p. prefix p s) wsRunes")
  case None
  with assms show ?thesis by (auto simp: find_None_iff)
next
  case (Some q)
  then have q: "q \<in> set wsRunes" "prefix q s"
    by (auto simp: find_Some_iff)
  from assms(2) q(2) have "prefix p q \<or> prefix q p" by (rule prefix_same_cases)
  with assms(1) q(1) have "p = q" using wsRunes_prefix_free by blast
  with Some show ?thesis by (simp add: wsLen_def)
qed

lemma wsLen_zero: "wsLen s = 0 \<longleftrightarrow> (\<forall>p \<in> set wsRunes. \<not> prefix p s)"
proof
  assume "wsLen s = 0"
  show "\<forall>p \<in> set wsRunes. \<not> prefix p s"
  proof
    fix p assume p: "p \<in> set wsRunes"
    show "\<not> prefix p s"
    proof
      assume "prefix p s"
      from wsLen_eq[OF p this] \<open>wsLen s = 0\<close> wsRunes_nonempty[OF p] show False by simp
    qed
  qed
next
  assume "\<forall>p \<in> set wsRunes. \<not> prefix p s"
  then show "wsLen s = 0" using wsLen_pos[of s] by auto
qed

lemma wsLen_Nil [simp]: "wsLen [] = 0"
  using wsRunes_nonempty by (auto simp: wsLen_zero)

lemma wsLen_le: "wsLen s \<le> length s"
proof (cases "wsLen s > 0")
  case True
  from wsLen_pos[OF this] show ?thesis by (auto simp: prefix_def)
next
  case False
  then show ?thesis by simp
qed

lemma wsLen_take:
  assumes "wsLen s > 0"
  shows "take (wsLen s) s \<in> set wsRunes"
proof -
  from wsLen_pos[OF assms] obtain p where p: "p \<in> set wsRunes" "prefix p s" "wsLen s = length p"
    by blast
  then have "take (wsLen s) s = p" by (auto simp: prefix_def)
  with p(1) show ?thesis by simp
qed

lemma wsLen_append_pos:
  assumes "wsLen u > 0"
  shows "wsLen (u @ v) = wsLen u"
proof -
  from wsLen_pos[OF assms] obtain p where p: "p \<in> set wsRunes" "prefix p u" "wsLen u = length p"
    by blast
  from p(2) have "prefix p (u @ v)" by (rule prefix_prefix)
  from wsLen_eq[OF p(1) this] p(3) show ?thesis by simp
qed

lemma prefix_append_safe:
  assumes "u \<noteq> []" and "safeStart v" and "p \<in> set wsRunes"
  shows "prefix p (u @ v) \<longleftrightarrow> prefix p u"
proof
  assume "prefix p u"
  then show "prefix p (u @ v)" by (rule prefix_prefix)
next
  assume "prefix p (u @ v)"
  then consider "prefix p u" | us where "p = u @ us" "prefix us v"
    by (auto simp: prefix_append)
  then show "prefix p u"
  proof cases
    case 1
    then show ?thesis .
  next
    case 2
    show ?thesis
    proof (cases "us = []")
      case True
      with 2 show ?thesis by simp
    next
      case False
      with 2(2) have v: "v \<noteq> []" "hd v = hd us" by (auto simp: prefix_def)
      from 2(1) assms(1) False have "hd us \<in> set (tl p)"
        by (cases u; cases us) auto
      with assms(3) have "hd us \<in> set (concat (map tl wsRunes))" by auto
      with v assms(2) show ?thesis by (simp add: safeStart_def)
    qed
  qed
qed

lemma wsLen_append_safe:
  assumes "u \<noteq> []" and "safeStart v"
  shows "wsLen (u @ v) = wsLen u"
proof (cases "wsLen u > 0")
  case True
  then show ?thesis by (rule wsLen_append_pos)
next
  case False
  then have "\<forall>p \<in> set wsRunes. \<not> prefix p u" by (simp add: wsLen_zero)
  then have "\<forall>p \<in> set wsRunes. \<not> prefix p (u @ v)"
    using prefix_append_safe[OF assms] by simp
  then have "wsLen (u @ v) = 0" by (simp add: wsLen_zero)
  with False show ?thesis by simp
qed

lemma wsLen_safeStart:
  assumes "wsLen s > 0"
  shows "safeStart s"
proof -
  from wsLen_pos[OF assms] obtain p where p: "p \<in> set wsRunes" "prefix p s" by blast
  with wsRunes_nonempty[OF p(1)] have "hd s = hd p" by (auto simp: prefix_def)
  with wsRunes_head[OF p(1)] show ?thesis by (simp add: safeStart_def)
qed

lemma wsLen_of_take:
  assumes "wsLen s = 0"
  shows "wsLen (take k s) = 0"
proof -
  have "\<forall>p \<in> set wsRunes. \<not> prefix p (take k s)"
  proof
    fix p assume p: "p \<in> set wsRunes"
    have "prefix (take k s) s" by (rule take_is_prefix)
    then show "\<not> prefix p (take k s)"
      using assms p by (metis prefix_order.trans wsLen_zero)
  qed
  then show ?thesis by (simp add: wsLen_zero)
qed

lemma wsLenR_pos:
  assumes "wsLenR s > 0"
  shows "\<exists>p \<in> set wsRunes. suffix p s \<and> wsLenR s = length p"
proof (cases "find (\<lambda>p. suffix p s) wsRunes")
  case None
  with assms show ?thesis by (simp add: wsLenR_def)
next
  case (Some p)
  then have "p \<in> set wsRunes" "suffix p s"
    by (auto simp: find_Some_iff)
  with Some show ?thesis by (auto simp: wsLenR_def)
qed

lemma wsLenR_zero: "wsLenR s = 0 \<longleftrightarrow> (\<forall>p \<in> set wsRunes. \<not> suffix p s)"
proof
  assume z: "wsLenR s = 0"
  show "\<forall>p \<in> set wsRunes. \<not> suffix p s"
  proof (rule ccontr)
    assume "\<not> (\<forall>p \<in> set wsRunes. \<not> suffix p s)"
    then have "find (\<lambda>p. suffix p s) wsRunes \<noteq> None" by (auto simp: find_None_iff)
    then obtain q where q: "find (\<lambda>p. suffix p s) wsRunes = Some q" by auto
    then have "q \<in> set wsRunes" by (auto simp: find_Some_iff)
    with q z wsRunes_nonempty show False by (auto simp: wsLenR_def)
  qed
next
  assume "\<forall>p \<in> set wsRunes. \<not> suffix p s"
  then show "wsLenR s = 0" using wsLenR_pos[of s] by auto
qed

lemma wsLenR_split:
  assumes "wsLenR s > 0"
  shows "\<exists>p \<in> set wsRunes. \<exists>s0. s = s0 @ p \<and> take (length s - wsLenR s) s = s0"
proof -
  from wsLenR_pos[OF assms] obtain p where p: "p \<in> set wsRunes" "suffix p s" "wsLenR s = length p"
    by blast
  from p(2) obtain s0 where "s = s0 @ p" by (auto simp: suffix_def)
  with p(3) have "take (length s - wsLenR s) s = s0" by simp
  with \<open>s = s0 @ p\<close> p(1) show ?thesis by auto
qed

subsection \<open>Reading a string as runes and bytes\<close>

lemma toks_Nil [simp]: "toks [] = []"
  by (subst toks.simps) simp

lemma toks_byte: "wsLen (c # cs) = 0 \<Longrightarrow> toks (c # cs) = Some c # toks cs"
  by (subst toks.simps) simp

lemma toks_ws: "wsLen s > 0 \<Longrightarrow> toks s = None # toks (drop (wsLen s) s)"
  by (subst toks.simps) (auto split: list.splits)

lemma toks_rune: "p \<in> set wsRunes \<Longrightarrow> toks (p @ v) = None # toks v"
proof -
  assume p: "p \<in> set wsRunes"
  have "wsLen (p @ v) = length p" by (rule wsLen_eq[OF p]) simp
  moreover from wsRunes_nonempty[OF p] have "length p > 0" by simp
  ultimately show ?thesis using toks_ws[of "p @ v"] by simp
qed

lemma toks_append_safe:
  assumes "safeStart v"
  shows "toks (u @ v) = toks u @ toks v"
proof (induction "length u" arbitrary: u rule: less_induct)
  case less
  show ?case
  proof (cases u)
    case Nil
    then show ?thesis by simp
  next
    case (Cons c cs)
    then have ne: "u \<noteq> []" by simp
    have len: "wsLen (u @ v) = wsLen u" by (rule wsLen_append_safe[OF ne assms])
    show ?thesis
    proof (cases "wsLen u = 0")
      case True
      have 1: "toks (u @ v) = Some c # toks (cs @ v)"
        using True len toks_byte[of c "cs @ v"] Cons by simp
      have 2: "toks (cs @ v) = toks cs @ toks v"
        using less[of cs] Cons by simp
      have 3: "toks u = Some c # toks cs"
        using True toks_byte[of c cs] Cons by simp
      show ?thesis by (simp add: 1 2 3)
    next
      case False
      then have pos: "wsLen u > 0" by simp
      have le: "wsLen u \<le> length u" by (rule wsLen_le)
      have 1: "toks (u @ v) = None # toks (drop (wsLen u) u @ v)"
        using toks_ws[of "u @ v"] pos len le by simp
      have 2: "toks (drop (wsLen u) u @ v) = toks (drop (wsLen u) u) @ toks v"
        using less[of "drop (wsLen u) u"] pos ne by simp
      have 3: "toks u = None # toks (drop (wsLen u) u)"
        using toks_ws[OF pos] by simp
      show ?thesis by (simp add: 1 2 3)
    qed
  qed
qed

lemma wsRun_Nil [simp]: "wsRun []"
  by (simp add: wsRun_def)

lemma wsRun_wsLen: "wsRun l \<Longrightarrow> l \<noteq> [] \<Longrightarrow> wsLen l > 0"
proof (rule ccontr)
  assume l: "wsRun l" "l \<noteq> []" and "\<not> wsLen l > 0"
  then obtain c cs where "l = c # cs" "wsLen (c # cs) = 0" by (cases l) auto
  with toks_byte[of c cs] l(1) show False by (simp add: wsRun_def)
qed

lemma wsRun_safeStart: "wsRun l \<Longrightarrow> safeStart l"
proof (cases "l = []")
  case True
  then show ?thesis by (simp add: safeStart_def)
next
  case False
  assume "wsRun l"
  from wsLen_safeStart[OF wsRun_wsLen[OF this False]] show ?thesis .
qed

lemma toks_append_run:
  assumes "wsRun l"
  shows "toks (l @ v) = toks l @ toks v"
  using assms
proof (induction "length l" arbitrary: l rule: less_induct)
  case less
  show ?case
  proof (cases "l = []")
    case True
    then show ?thesis by simp
  next
    case False
    from wsRun_wsLen[OF less.prems False] have pos: "wsLen l > 0" .
    have le: "wsLen l \<le> length l" by (rule wsLen_le)
    have tl: "toks l = None # toks (drop (wsLen l) l)" by (rule toks_ws[OF pos])
    with less.prems have run': "wsRun (drop (wsLen l) l)" by (simp add: wsRun_def)
    have 1: "toks (l @ v) = None # toks (drop (wsLen l) l @ v)"
      using toks_ws[of "l @ v"] wsLen_append_pos[OF pos, of v] pos le by simp
    have 2: "toks (drop (wsLen l) l @ v) = toks (drop (wsLen l) l) @ toks v"
      using less.hyps[OF _ run'] pos False by simp
    show ?thesis by (simp add: 1 2 tl)
  qed
qed

lemma wsRun_append: "wsRun l \<Longrightarrow> wsRun r \<Longrightarrow> wsRun (l @ r)"
  by (simp add: wsRun_def toks_append_run)

lemma wsRun_rune: "p \<in> set wsRunes \<Longrightarrow> wsRun p"
  using toks_rune[of p "[]"] by (simp add: wsRun_def)

subsection \<open>What trimming removes\<close>

lemma trimLeft_id: "wsLen s = 0 \<Longrightarrow> trimLeft s = s"
  by (subst trimLeft.simps) simp

lemma trimRight_id: "wsLenR s = 0 \<Longrightarrow> trimRight s = s"
  by (subst trimRight.simps) simp

lemma trimLeft_split: "\<exists>l. s = l @ trimLeft s \<and> wsRun l"
proof (induction s rule: trimLeft.induct)
  case (1 s)
  show ?case
  proof (cases "wsLen s = 0 \<or> s = []")
    case True
    then have "trimLeft s = s" by (subst trimLeft.simps) simp
    then show ?thesis by (intro exI[of _ "[]"]) simp
  next
    case False
    then have pos: "wsLen s > 0" by simp
    from 1[OF False] obtain l where l: "drop (wsLen s) s = l @ trimLeft (drop (wsLen s) s)" "wsRun l"
      by blast
    have eq: "trimLeft s = trimLeft (drop (wsLen s) s)"
      using False by (subst trimLeft.simps) simp
    have "s = take (wsLen s) s @ drop (wsLen s) s" by simp
    also have "\<dots> = (take (wsLen s) s @ l) @ trimLeft s" using l(1) eq by simp
    finally have "s = (take (wsLen s) s @ l) @ trimLeft s" .
    moreover have "wsRun (take (wsLen s) s @ l)"
      using wsRun_rune[OF wsLen_take[OF pos]] l(2) by (rule wsRun_append)
    ultimately show ?thesis by blast
  qed
qed

lemma trimLeft_wsLen: "wsLen (trimLeft s) = 0"
proof (induction s rule: trimLeft.induct)
  case (1 s)
  show ?case
  proof (cases "wsLen s = 0 \<or> s = []")
    case True
    then have "trimLeft s = s" by (subst trimLeft.simps) simp
    with True show ?thesis by auto
  next
    case False
    have "trimLeft s = trimLeft (drop (wsLen s) s)"
      using False by (subst trimLeft.simps) simp
    with 1[OF False] show ?thesis by simp
  qed
qed

lemma trimRight_split: "\<exists>r. s = trimRight s @ r \<and> wsRun r"
proof (induction s rule: trimRight.induct)
  case (1 s)
  show ?case
  proof (cases "wsLenR s = 0 \<or> s = []")
    case True
    then have "trimRight s = s" by (subst trimRight.simps) simp
    then show ?thesis by (intro exI[of _ "[]"]) simp
  next
    case False
    then have pos: "wsLenR s > 0" by simp
    from wsLenR_split[OF pos] obtain p s0 where p: "p \<in> set wsRunes" "s = s0 @ p"
      "take (length s - wsLenR s) s = s0" by blast
    from 1[OF False] p(3) obtain r where r: "s0 = trimRight s0 @ r" "wsRun r" by auto
    have eq: "trimRight s = trimRight s0"
      using False p(3) by (subst trimRight.simps) simp
    have "s = trimRight s @ (r @ p)"
      by (subst p(2), subst r(1)) (simp add: eq)
    moreover have "wsRun (r @ p)" using r(2) wsRun_rune[OF p(1)] by (rule wsRun_append)
    ultimately show ?thesis by blast
  qed
qed

lemma trimRight_prefix: "prefix (trimRight s) s"
  using trimRight_split[of s] by (auto simp: prefix_def)

lemma trimLeft_suffix: "suffix (trimLeft s) s"
  using trimLeft_split[of s] by (auto simp: suffix_def)

lemma TrimSpace_wsLen: "wsLen (TrimSpace s) = 0"
proof -
  have "\<forall>p \<in> set wsRunes. \<not> prefix p (trimRight (trimLeft s))"
  proof
    fix p assume p: "p \<in> set wsRunes"
    show "\<not> prefix p (trimRight (trimLeft s))"
    proof
      assume "prefix p (trimRight (trimLeft s))"
      with trimRight_prefix[of "trimLeft s"] have "prefix p (trimLeft s)"
        by (meson prefix_order.trans)
      with p trimLeft_wsLen[of s] show False by (simp add: wsLen_zero)
    qed
  qed
  then show ?thesis by (simp add: TrimSpace_def wsLen_zero)
qed

lemma TrimSpace_no_trailing:
  assumes "wsLenR a = 0"
  shows "TrimSpace a = trimLeft a"
proof -
  have "\<forall>p \<in> set wsRunes. \<not> suffix p (trimLeft a)"
  proof
    fix p assume p: "p \<in> set wsRunes"
    show "\<not> suffix p (trimLeft a)"
    proof
      assume "suffix p (trimLeft a)"
      with trimLeft_suffix[of a] have "suffix p a" by (meson suffix_order.trans)
      with p assms show False by (simp add: wsLenR_zero)
    qed
  qed
  then have "wsLenR (trimLeft a) = 0" by (simp add: wsLenR_zero)
  then show ?thesis by (simp add: TrimSpace_def trimRight_id)
qed

lemma TrimSpace_no_leading:
  assumes "wsLen b = 0"
  shows "TrimSpace b = trimRight b"
  using assms by (simp add: TrimSpace_def trimLeft_id)

subsection \<open>Fields\<close>

lemma wordsT_nonempty [simp]: "wordsT ts \<noteq> []"
  by (induction ts rule: wordsT.induct) simp_all

lemma wordsT_append_None: "wordsT (xs @ None # ys) = wordsT xs @ wordsT ys"
proof (induction xs rule: wordsT.induct)
  case 1
  show ?case by simp
next
  case (2 ts)
  then show ?case by simp
next
  case (3 c ts)
  then show ?case by (cases "wordsT ts") simp_all
qed

lemma Fields_fieldsT: "Fields s = fieldsT (toks s)"
  by (simp add: Fields_def)

lemma fieldsT_Nil [simp]: "fieldsT [] = []"
  by (simp add: fieldsT_def)

lemma fieldsT_None [simp]: "fieldsT (None # ts) = fieldsT ts"
  by (simp add: fieldsT_def)

lemma fieldsT_append_None: "fieldsT (xs @ None # ys) = fieldsT xs @ fieldsT ys"
  by (simp add: fieldsT_def wordsT_append_None)

lemma fieldsT_snoc_None [simp]: "fieldsT (xs @ [None]) = fieldsT xs"
  using fieldsT_append_None[of xs "[]"] by simp

lemma fieldsT_Nones: "set ns \<subseteq> {None} \<Longrightarrow> fieldsT ns = []"
  by (induction ns) auto

lemma fieldsT_Nones_left: "set ns \<subseteq> {None} \<Longrightarrow> fieldsT (ns @ ts) = fieldsT ts"
  by (induction ns) auto

lemma fieldsT_Nones_right: "set ns \<subseteq> {None} \<Longrightarrow> fieldsT (ts @ ns) = fieldsT ts"
proof (induction ns rule: rev_induct)
  case Nil
  show ?case by simp
next
  case (snoc n ns)
  then have "n = None" by simp
  with snoc show ?case using fieldsT_snoc_None[of "ts @ ns"] by simp
qed

lemma Fields_run_left: "wsRun l \<Longrightarrow> Fields (l @ y) = Fields y"
  by (simp add: Fields_fieldsT toks_append_run fieldsT_Nones_left wsRun_def)

lemma Fields_run_right: "wsRun r \<Longrightarrow> Fields (y @ r) = Fields y"
  by (simp add: Fields_fieldsT toks_append_safe[OF wsRun_safeStart] fieldsT_Nones_right wsRun_def)

lemma Fields_space: "Fields (u @ '' '' @ v) = Fields u @ Fields v"
proof -
  have "wsLen ('' '' @ v) > 0" using wsLen_eq[OF space_rune, of "'' '' @ v"] by simp
  then have "safeStart ('' '' @ v)" by (rule wsLen_safeStart)
  then have "toks (u @ '' '' @ v) = toks u @ toks ('' '' @ v)" by (rule toks_append_safe)
  also have "toks ('' '' @ v) = None # toks v" by (rule toks_rune[OF space_rune])
  finally show ?thesis by (simp add: Fields_fieldsT fieldsT_append_None)
qed

lemma Fields_cut:
  assumes "wsLenR a > 0 \<or> wsLen b > 0"
  shows "Fields (u @ a @ b) = Fields (u @ a) @ Fields b"
proof (cases "wsLen b > 0")
  case True
  then have "toks ((u @ a) @ b) = toks (u @ a) @ toks b"
    by (intro toks_append_safe wsLen_safeStart)
  moreover have "toks b = None # toks (drop (wsLen b) b)" by (rule toks_ws[OF True])
  ultimately show ?thesis
    by (simp add: Fields_fieldsT fieldsT_append_None)
next
  case False
  with assms have "wsLenR a > 0" by simp
  from wsLenR_split[OF this] obtain p a0 where p: "p \<in> set wsRunes" "a = a0 @ p" by blast
  have sp: "safeStart (p @ w)" for w
    using wsLen_eq[OF p(1), of "p @ w"] wsRunes_nonempty[OF p(1)]
    by (intro wsLen_safeStart) simp
  have 1: "toks ((u @ a0) @ p @ b) = toks (u @ a0) @ None # toks b"
    using toks_append_safe[OF sp[of b], of "u @ a0"] toks_rune[OF p(1), of b] by simp
  have 2: "toks ((u @ a0) @ p @ []) = toks (u @ a0) @ [None]"
    using toks_append_safe[OF sp[of "[]"], of "u @ a0"] toks_rune[OF p(1), of "[]"] by simp
  show ?thesis
    using 1 2 by (simp add: Fields_fieldsT p(2) fieldsT_append_None)
qed

lemma Fields_TrimSpace:
  assumes "u = [] \<or> wsLen a = 0"
  shows "Fields (u @ TrimSpace a) = Fields (u @ a)"
proof -
  obtain l where l: "a = l @ trimLeft a" "wsRun l" using trimLeft_split by blast
  obtain r where r: "trimLeft a = TrimSpace a @ r" "wsRun r"
    using trimRight_split[of "trimLeft a"] by (auto simp: TrimSpace_def)
  have "Fields (u @ trimLeft a) = Fields (u @ TrimSpace a)"
    using Fields_run_right[OF r(2), of "u @ TrimSpace a"] r(1) by simp
  moreover have "Fields (u @ a) = Fields (u @ trimLeft a)"
  proof (cases "wsLen a = 0")
    case True
    then show ?thesis by (simp add: trimLeft_id)
  next
    case False
    with assms have "u = []" by simp
    then show ?thesis using Fields_run_left[OF l(2), of "trimLeft a"] by (metis l(1) append_Nil)
  qed
  ultimately show ?thesis by simp
qed

lemma Fields_split:
  assumes "u = [] \<or> wsLen x = 0"
  shows "Fields (u @ TrimSpace (take k x) @
           (if wsLenR (take k x) > 0 \<or> wsLen (drop k x) > 0 then '' '' else []) @
           TrimSpace (drop k x)) = Fields (u @ x)"
proof -
  define a where "a = take k x"
  define b where "b = drop k x"
  have x: "x = a @ b" by (simp add: a_def b_def)
  have ua: "u = [] \<or> wsLen a = 0"
    using assms wsLen_of_take[of x k] by (auto simp: a_def)
  show ?thesis
  proof (cases "wsLenR a > 0 \<or> wsLen b > 0")
    case True
    have "Fields (u @ TrimSpace a @ '' '' @ TrimSpace b) = Fields (u @ TrimSpace a) @ Fields (TrimSpace b)"
      using Fields_space[of "u @ TrimSpace a" "TrimSpace b"] by simp
    also have "\<dots> = Fields (u @ a) @ Fields b"
      using Fields_TrimSpace[OF ua] Fields_TrimSpace[of "[]" b] by simp
    also have "\<dots> = Fields (u @ a @ b)" by (rule Fields_cut[OF True, symmetric])
    finally show ?thesis using True by (simp add: a_def[symmetric] b_def[symmetric] x[symmetric])
  next
    case False
    then have za: "wsLenR a = 0" and zb: "wsLen b = 0" by simp_all
    obtain r where r: "b = trimRight b @ r" "wsRun r" using trimRight_split by blast
    obtain l where l: "a = l @ trimLeft a" "wsRun l" using trimLeft_split by blast
    have "Fields (u @ a @ b) = Fields ((u @ a @ trimRight b) @ r)"
      using r(1) by simp
    also have "\<dots> = Fields (u @ a @ trimRight b)" by (rule Fields_run_right[OF r(2)])
    also have "\<dots> = Fields (u @ trimLeft a @ trimRight b)"
    proof (cases "wsLen a = 0")
      case True
      then show ?thesis by (simp add: trimLeft_id)
    next
      case False
      with ua have u: "u = []" by simp
      have e: "a @ trimRight b = l @ (trimLeft a @ trimRight b)"
        by (metis l(1) append.assoc)
      show ?thesis
        by (simp only: u append_Nil e Fields_run_left[OF l(2)])
    qed
    finally have "Fields (u @ x) = Fields (u @ TrimSpace a @ TrimSpace b)"
      by (simp add: x TrimSpace_no_trailing[OF za] TrimSpace_no_leading[OF zb])
    then show ?thesis using False by (simp add: a_def[symmetric] b_def[symmetric])
  qed
qed

subsection \<open>The loop with its splits\<close>

lemma emitted_pieceAt [simp]: "emitted (pieceAt input k) = TrimSpace (take k input)"
  by (simp add: pieceAt_def)

lemma wsCut_pieceAt [simp]:
  "wsCut (pieceAt input k) \<longleftrightarrow> wsLenR (take k input) > 0 \<or> wsLen (drop k input) > 0"
  by (simp add: pieceAt_def)

lemma traceLoop_rule:
  fixes I :: "piece list \<Rightarrow> string \<Rightarrow> bool"
  assumes "0 < sz" and "I pieces input"
    and step: "\<And>pieces input. I pieces input \<Longrightarrow> sz < int (length input) \<Longrightarrow>
           I (pieces @ [pieceAt input (nat (splitPoint input sz))])
             (TrimSpace (drop (nat (splitPoint input sz)) input))"
  shows "\<exists>pieces' input'. I pieces' input' \<and> int (length input') \<le> sz \<and>
           traceLoop pieces input sz = Some (Inr (finish pieces' input')) \<and>
           chunkLoop (map emitted pieces) input sz = Some (Inr (map emitted (finish pieces' input')))"
  using assms(2)
proof (induction "length input" arbitrary: pieces input rule: less_induct)
  case less
  show ?case
  proof (cases "sz < int (length input)")
    case False
    then have "traceLoop pieces input sz = Some (Inr (finish pieces input))"
      by (subst traceLoop.simps) (simp add: finish_def)
    moreover from False
    have "chunkLoop (map emitted pieces) input sz = Some (Inr (map emitted (finish pieces input)))"
      by (subst chunkLoop.simps) (simp add: finish_def)
    ultimately show ?thesis
      using False less.prems by (intro exI[of _ pieces] exI[of _ input]) simp
  next
    case True
    let ?p = "pieces @ [pieceAt input (nat (splitPoint input sz))]"
    let ?r = "TrimSpace (drop (nat (splitPoint input sz)) input)"
    have "length ?r < length input" by (rule rest_shorter[OF assms(1) True])
    moreover have "I ?p ?r" by (rule step[OF less.prems True])
    ultimately obtain pieces' input' where r: "I pieces' input'" "int (length input') \<le> sz"
      "traceLoop ?p ?r sz = Some (Inr (finish pieces' input'))"
      "chunkLoop (map emitted ?p) ?r sz = Some (Inr (map emitted (finish pieces' input')))"
      using less.hyps by blast
    have "traceLoop pieces input sz = traceLoop ?p ?r sz"
      using True assms(1) by (subst traceLoop.simps) simp
    moreover have "chunkLoop (map emitted pieces) input sz = chunkLoop (map emitted ?p) ?r sz"
      using True assms(1) by (subst chunkLoop.simps) simp
    ultimately show ?thesis
      using r by (intro exI[of _ pieces'] exI[of _ input']) simp
  qed
qed

lemma joinPieces_snoc:
  "joinPieces sep (ps @ [p]) = joinPieces sep ps @ emitted p @ (if sep p then '' '' else [])"
  by (simp add: joinPieces_def)

lemma joinPieces_finish: "joinPieces wsCut (finish pieces input) = joinPieces wsCut pieces @ input"
  by (simp add: finish_def joinPieces_def)

subsection \<open>C3: putting the chunks together again\<close>

text \<open>
  Claim C3, as stated, puts a space between two chunks only where the split was on a
  space. A hard cut drops white space too, when it falls next to it: with size 3 the
  text \<open>ab\ncd\<close> has no space in its window and is cut at 3, directly after the line
  feed, which trimming then removes from the first chunk. The chunks are \<open>ab\<close> and
  \<open>cd\<close>, neither split was on a space, and their concatenation \<open>abcd\<close> is not the text
  \<open>ab cd\<close> that the original normalises to.
\<close>

theorem chunkText_reassemble_counterexample:
  "chunkTrace [CHR ''a'', CHR ''b'', CHR 0x0A, CHR ''c'', CHR ''d''] 3 =
     Some (Inr [\<lparr> emitted = ''ab'', onSpace = False, wsCut = True \<rparr>,
                \<lparr> emitted = ''cd'', onSpace = False, wsCut = False \<rparr>]) \<and>
   LastIndex (take 3 [CHR ''a'', CHR ''b'', CHR 0x0A, CHR ''c'', CHR ''d'']) '' '' = - 1 \<and>
   normalize (joinPieces onSpace
     [\<lparr> emitted = ''ab'', onSpace = False, wsCut = True \<rparr>,
      \<lparr> emitted = ''cd'', onSpace = False, wsCut = False \<rparr>]) = ''abcd'' \<and>
   normalize [CHR ''a'', CHR ''b'', CHR 0x0A, CHR ''c'', CHR ''d''] = ''ab cd''"
  by code_simp

text \<open>
  Claim C3, amended. For every text and every positive size, concatenating the chunks of
  \<open>chunkText\<close> in order, with a single space after every chunk at whose split point a
  white-space character ended or began (so in particular wherever the split was on a
  space), gives a text with the same white-space normal form as the original: the two
  are equal after collapsing every run of white space to one space and trimming.
\<close>

theorem chunkText_reassemble:
  assumes "0 < sz"
  shows "\<exists>pieces. chunkTrace input sz = Some (Inr pieces) \<and>
           chunkText input sz = Some (Inr (map emitted pieces)) \<and>
           normalize (joinPieces wsCut pieces) = normalize input"
proof -
  define I :: "piece list \<Rightarrow> string \<Rightarrow> bool" where "I = (\<lambda>pieces inp.
      Fields (joinPieces wsCut pieces @ inp) = Fields input \<and> (pieces = [] \<or> wsLen inp = 0))"
  have init: "I [] input" by (simp add: I_def joinPieces_def)
  have "\<exists>pieces' input'. I pieces' input' \<and> int (length input') \<le> sz \<and>
           traceLoop [] input sz = Some (Inr (finish pieces' input')) \<and>
           chunkLoop (map emitted ([] :: piece list)) input sz =
             Some (Inr (map emitted (finish pieces' input')))"
  proof (rule traceLoop_rule[where I = I and pieces = "[]" and input = input, OF assms init])
    fix pieces :: "piece list" and inp :: string
    assume inv: "I pieces inp" and long: "sz < int (length inp)"
    define k where "k = nat (splitPoint inp sz)"
    from inv have u: "joinPieces wsCut pieces = [] \<or> wsLen inp = 0"
      by (auto simp: I_def joinPieces_def)
    have "Fields (joinPieces wsCut (pieces @ [pieceAt inp k]) @ TrimSpace (drop k inp))
        = Fields (joinPieces wsCut pieces @ inp)"
      using Fields_split[OF u, of k] by (simp add: joinPieces_snoc)
    with inv show "I (pieces @ [pieceAt inp (nat (splitPoint inp sz))])
             (TrimSpace (drop (nat (splitPoint inp sz)) inp))"
      by (simp add: I_def k_def TrimSpace_wsLen)
  qed
  then obtain pieces' input' where r: "I pieces' input'"
      "traceLoop [] input sz = Some (Inr (finish pieces' input'))"
      "chunkLoop [] input sz = Some (Inr (map emitted (finish pieces' input')))"
    by auto
  from r(1) have "Fields (joinPieces wsCut (finish pieces' input')) = Fields input"
    by (simp add: I_def joinPieces_finish)
  then have "normalize (joinPieces wsCut (finish pieces' input')) = normalize input"
    by (simp add: normalize_def)
  with r(2,3) show ?thesis
    unfolding chunkTrace_def chunkText_def by blast
qed

theorem chunkText_reassemble_witness:
  "chunkTrace [CHR ''a'', CHR ''b'', CHR 0x0A, CHR ''c'', CHR ''d'', CHR '' '', CHR ''e'', CHR ''f'', CHR ''g''] 3 =
     Some (Inr [\<lparr> emitted = ''ab'', onSpace = False, wsCut = True \<rparr>,
                \<lparr> emitted = ''cd'', onSpace = True, wsCut = True \<rparr>,
                \<lparr> emitted = ''efg'', onSpace = False, wsCut = False \<rparr>]) \<and>
   normalize (joinPieces wsCut
     [\<lparr> emitted = ''ab'', onSpace = False, wsCut = True \<rparr>,
      \<lparr> emitted = ''cd'', onSpace = True, wsCut = True \<rparr>,
      \<lparr> emitted = ''efg'', onSpace = False, wsCut = False \<rparr>]) =
   normalize [CHR ''a'', CHR ''b'', CHR 0x0A, CHR ''c'', CHR ''d'', CHR '' '', CHR ''e'', CHR ''f'', CHR ''g'']"
proof -
  have e: "chunkTrace [CHR ''a'', CHR ''b'', CHR 0x0A, CHR ''c'', CHR ''d'', CHR '' '', CHR ''e'', CHR ''f'', CHR ''g''] 3 =
     Some (Inr [\<lparr> emitted = ''ab'', onSpace = False, wsCut = True \<rparr>,
                \<lparr> emitted = ''cd'', onSpace = True, wsCut = True \<rparr>,
                \<lparr> emitted = ''efg'', onSpace = False, wsCut = False \<rparr>])"
    by code_simp
  from chunkText_reassemble[of 3 "[CHR ''a'', CHR ''b'', CHR 0x0A, CHR ''c'', CHR ''d'', CHR '' '', CHR ''e'', CHR ''f'', CHR ''g'']"]
  show ?thesis unfolding e by simp
qed

subsection \<open>C5: empty chunks\<close>

text \<open>
  Claim C5: no chunk of \<open>chunkText\<close> is the empty string. The code guards the remainder
  (\<open>if len(input) > 0\<close>) but not the chunks of the loop, and it never trims the text it
  is given: when the last space of the first window has only white space before it, the
  first chunk is empty.
\<close>

theorem chunkText_empty_chunk:
  "chunkText '' abcdef'' 3 = Some (Inr ['''', ''abc'', ''def''])"
  by code_simp

text \<open>A text that does not start with white space gives no empty chunk.\<close>

lemma TrimSpace_nonempty:
  assumes "a \<noteq> []" and "wsLen a = 0"
  shows "TrimSpace a \<noteq> []"
proof
  assume e: "TrimSpace a = []"
  obtain r where r: "a = trimRight a @ r" "wsRun r" using trimRight_split by blast
  from e assms(2) have "trimRight a = []" by (simp add: TrimSpace_no_leading)
  with r have "wsRun a" by simp
  from wsRun_wsLen[OF this assms(1)] assms(2) show False by simp
qed

theorem chunkText_no_empty_chunk:
  assumes "0 < sz" and "wsLen input = 0"
  shows "\<exists>chunks. chunkText input sz = Some (Inr chunks) \<and> [] \<notin> set chunks"
proof -
  define I :: "string list \<Rightarrow> string \<Rightarrow> bool" where
    "I = (\<lambda>chunks inp. [] \<notin> set chunks \<and> wsLen inp = 0)"
  have init: "I [] input" using assms(2) by (simp add: I_def)
  have "\<exists>chunks' input'. I chunks' input' \<and> int (length input') \<le> sz \<and>
           chunkLoop [] input sz =
             Some (Inr (if length input' > 0 then chunks' @ [input'] else chunks'))"
  proof (rule chunkLoop_rule[where I = I and chunks = "[]" and input = input, OF assms(1) init])
    fix chunks :: "string list" and inp :: string
    assume inv: "I chunks inp" and long: "sz < int (length inp)"
    have "splitPoint inp sz \<noteq> 0"
    proof
      assume z: "splitPoint inp sz = 0"
      with splitPoint_cases[OF assms(1) long] assms(1) have "inp ! 0 = CHR '' ''" by auto
      moreover from long assms(1) have "inp \<noteq> []" by auto
      ultimately obtain s where "inp = CHR '' '' # s" by (cases inp) auto
      with inv wsLen_space[of s] show False by (simp add: I_def)
    qed
    with splitPoint_range[OF assms(1) long] have k: "0 < nat (splitPoint inp sz)" by simp
    with long assms(1) have "take (nat (splitPoint inp sz)) inp \<noteq> []" by auto
    moreover have "wsLen (take (nat (splitPoint inp sz)) inp) = 0"
      using inv by (simp add: I_def wsLen_of_take)
    ultimately have "TrimSpace (take (nat (splitPoint inp sz)) inp) \<noteq> []"
      by (rule TrimSpace_nonempty)
    with inv show "I (chunks @ [TrimSpace (take (nat (splitPoint inp sz)) inp)])
             (TrimSpace (drop (nat (splitPoint inp sz)) inp))"
      by (simp add: I_def TrimSpace_wsLen)
  qed
  then show ?thesis unfolding chunkText_def I_def by auto
qed

theorem chunkText_no_empty_chunk_witness:
  "chunkText ''the quick brown fox jumps'' 10 = Some (Inr [''the quick'', ''brown fox'', ''jumps'']) \<and>
   [] \<notin> set [''the quick'', ''brown fox'', ''jumps'']"
proof -
  have e: "chunkText ''the quick brown fox jumps'' 10 = Some (Inr [''the quick'', ''brown fox'', ''jumps''])"
    by code_simp
  have z: "wsLen ''the quick brown fox jumps'' = 0" by code_simp
  from chunkText_no_empty_chunk[of 10 "''the quick brown fox jumps''", OF _ z]
  show ?thesis unfolding e by simp
qed

subsection \<open>C6: a text that fits in one chunk\<close>

text \<open>
  Claim C6: a text no longer than the size, and not empty after trimming, gives exactly
  one chunk, the trimmed text. The code trims every chunk and every remainder inside
  the loop, but a text that fits never enters the loop and is appended as it is: a file
  that ends with a line feed gives a chunk that ends with a line feed.
\<close>

theorem chunkText_short_untrimmed:
  "makeChunks (Some (Inr [CHR ''H'', CHR ''i'', CHR 0x0A])) =
     Some (Inr (Inr [[CHR ''H'', CHR ''i'', CHR 0x0A]])) \<and>
   TrimSpace [CHR ''H'', CHR ''i'', CHR 0x0A] = ''Hi'' \<and>
   chunkText '' a'' 5 = Some (Inr ['' a'']) \<and> TrimSpace '' a'' = ''a''"
  by code_simp

text \<open>A text that fits is returned as its only chunk, unchanged; the empty text gives no
  chunk.\<close>

lemma chunkLoop_short:
  "int (length input) \<le> sz \<Longrightarrow>
   chunkLoop chunks input sz = Some (Inr (if input = [] then chunks else chunks @ [input]))"
  by (subst chunkLoop.simps) simp

theorem chunkText_short:
  assumes "int (length input) \<le> sz"
  shows "chunkText input sz = Some (Inr (if input = [] then [] else [input]))"
  using chunkLoop_short[OF assms, of "[]"] by (simp add: chunkText_def)

theorem chunkText_short_witness:
  "chunkText [CHR ''H'', CHR ''i'', CHR 0x0A] 4500 = Some (Inr [[CHR ''H'', CHR ''i'', CHR 0x0A]])"
  using chunkText_short[of "[CHR ''H'', CHR ''i'', CHR 0x0A]" 4500] by simp

subsection \<open>A size of zero\<close>

text \<open>With size 0 the loop appends an empty chunk and keeps the trimmed text, for ever:
  \<open>chunkText\<close> does not return for a text that is not empty after trimming.\<close>

lemma trimRight_wsLenR: "wsLenR (trimRight s) = 0"
proof (induction s rule: trimRight.induct)
  case (1 s)
  show ?case
  proof (cases "wsLenR s = 0 \<or> s = []")
    case True
    then have "trimRight s = s" by (subst trimRight.simps) simp
    with True show ?thesis by (auto simp: wsLenR_zero wsRunes_nonempty)
  next
    case False
    have "trimRight s = trimRight (take (length s - wsLenR s) s)"
      using False by (subst trimRight.simps) simp
    with 1[OF False] show ?thesis by simp
  qed
qed

lemma TrimSpace_idem: "TrimSpace (TrimSpace s) = TrimSpace s"
proof -
  have "TrimSpace (TrimSpace s) = trimRight (TrimSpace s)"
    by (rule TrimSpace_no_leading[OF TrimSpace_wsLen])
  also have "\<dots> = TrimSpace s"
    by (rule trimRight_id) (simp add: TrimSpace_def trimRight_wsLenR)
  finally show ?thesis .
qed

lemma splitPoint_zero: "splitPoint input 0 = 0"
  by (simp add: splitPoint_def LastIndex_def)

lemma chunkLoop_zero_diverges_aux:
  assumes "chunkLoop chunks input sz = Some y"
  shows "\<not> (sz = 0 \<and> TrimSpace input \<noteq> [])"
proof (rule chunkLoop.raw_induct[where P = "\<lambda>chunks input sz y. \<not> (sz = 0 \<and> TrimSpace input \<noteq> [])",
      OF _ assms])
  fix f :: "string list \<Rightarrow> string \<Rightarrow> int \<Rightarrow> (panic + string list) option"
    and chunks input sz y
  assume IH: "\<And>chunks input sz y. f chunks input sz = Some y \<Longrightarrow> \<not> (sz = 0 \<and> TrimSpace input \<noteq> [])"
    and body: "(if sz < int (length input)
      then if sz < 0 then Some (Inl SliceBoundsOutOfRange)
           else f (chunks @ [TrimSpace (take (nat (splitPoint input sz)) input)])
                 (TrimSpace (drop (nat (splitPoint input sz)) input)) sz
      else Some (Inr (if 0 < length input then chunks @ [input] else chunks))) = Some y"
  show "\<not> (sz = 0 \<and> TrimSpace input \<noteq> [])"
  proof
    assume a: "sz = 0 \<and> TrimSpace input \<noteq> []"
    then have "input \<noteq> []" using TrimSpace_length[of "[]"] by auto
    with a body have "f (chunks @ [TrimSpace (take (nat (splitPoint input 0)) input)])
        (TrimSpace (drop (nat (splitPoint input 0)) input)) 0 = Some y"
      by simp
    from IH[OF this] a show False by (simp add: splitPoint_zero TrimSpace_idem)
  qed
qed

theorem chunkText_zero_diverges:
  assumes "TrimSpace input \<noteq> []"
  shows "chunkText input 0 = None"
proof (cases "chunkText input 0")
  case None
  then show ?thesis .
next
  case (Some y)
  with chunkLoop_zero_diverges_aux[of "[]" input 0 y] assms show ?thesis
    by (simp add: chunkText_def)
qed

theorem chunkText_zero_diverges_witness:
  "chunkText ''a'' 0 = None"
proof -
  have "TrimSpace ''a'' \<noteq> []" by code_simp
  then show ?thesis by (rule chunkText_zero_diverges)
qed

section \<open>Properties of \<open>synthesizeChunks\<close>\<close>

subsection \<open>Runs of the task group\<close>

text \<open>The group keeps the first error it is given; a live context launches every task; a
  task that fails on a live group context makes the run fail, whatever the order; and
  when every call succeeds each task fills exactly its own slot.\<close>

lemma task_keeps_err: "groupErr g = Some e \<Longrightarrow> groupErr (task w v l ic g) = Some e"
  by (simp add: task_def split: sum.splits)

lemma fold_task_keeps_err:
  "groupErr g = Some e \<Longrightarrow> groupErr (fold (task w v l) ts g) = Some e"
  by (induction ts arbitrary: g) (simp_all add: task_keeps_err)

lemma launched_live: "\<forall>k. ctxErr w k = None \<Longrightarrow> launched w ts = ts"
  by (induction ts) auto

lemma fold_task_failure:
  assumes "groupErr g = None"
    and "(i, c) \<in> set ts"
    and "SynthesizeSpeech w False \<lparr> Text = c, LanguageCode = l, Name = v, AudioEncoding = MP3 \<rparr> = Inl e"
  shows "\<exists>j c' e'. (j, c') \<in> set ts \<and>
           SynthesizeSpeech w False \<lparr> Text = c', LanguageCode = l, Name = v, AudioEncoding = MP3 \<rparr> = Inl e' \<and>
           groupErr (fold (task w v l) ts g) =
             Some (WithTrace (Errorf ''text to speech synthesize speech'' e') [c', l, v])"
  using assms
proof (induction ts arbitrary: g)
  case Nil
  then show ?case by simp
next
  case (Cons t ts)
  obtain j d where t: "t = (j, d)" by (cases t)
  show ?case
  proof (cases "SynthesizeSpeech w False \<lparr> Text = d, LanguageCode = l, Name = v, AudioEncoding = MP3 \<rparr>")
    case (Inl e')
    then have "groupErr (task w v l t g) = Some (WithTrace (Errorf ''text to speech synthesize speech'' e') [d, l, v])"
      using Cons.prems(1) by (simp add: task_def t)
    then have "groupErr (fold (task w v l) (t # ts) g) = Some (WithTrace (Errorf ''text to speech synthesize speech'' e') [d, l, v])"
      by (simp add: fold_task_keeps_err)
    with Inl t show ?thesis by (intro exI[of _ j] exI[of _ d] exI[of _ e']) simp
  next
    case (Inr a)
    then have g': "groupErr (task w v l t g) = None"
      using Cons.prems(1) by (simp add: task_def t)
    from Inr Cons.prems(2,3) t have "(i, c) \<in> set ts" by auto
    from Cons.IH[OF g' this Cons.prems(3)] show ?thesis by auto
  qed
qed

lemma fold_task_success:
  assumes "groupErr g = None"
    and "distinct (map fst ts)"
    and "\<forall>(i, c) \<in> set ts.
           SynthesizeSpeech w False \<lparr> Text = c, LanguageCode = l, Name = v, AudioEncoding = MP3 \<rparr> = Inr (a c)"
  shows "groupErr (fold (task w v l) ts g) = None \<and>
         length (chunkMap (fold (task w v l) ts g)) = length (chunkMap g) \<and>
         (\<forall>i < length (chunkMap g).
            chunkMap (fold (task w v l) ts g) ! i =
              (case map_of ts i of None \<Rightarrow> chunkMap g ! i | Some c \<Rightarrow> a c))"
  using assms
proof (induction ts arbitrary: g)
  case Nil
  then show ?case by simp
next
  case (Cons t ts)
  obtain j d where t: "t = (j, d)" by (cases t)
  from Cons.prems(3) t
  have call: "SynthesizeSpeech w False \<lparr> Text = d, LanguageCode = l, Name = v, AudioEncoding = MP3 \<rparr> = Inr (a d)"
    by simp
  define g' where "g' = g \<lparr> chunkMap := (chunkMap g)[j := a d] \<rparr>"
  have step: "task w v l t g = g'"
    using Cons.prems(1) call by (simp add: task_def t g'_def)
  have e': "groupErr g' = None"
    using Cons.prems(1) by (simp add: g'_def)
  from Cons.prems(2) have d': "distinct (map fst ts)" by simp
  from Cons.prems(3) have s': "\<forall>(i, c) \<in> set ts.
           SynthesizeSpeech w False \<lparr> Text = c, LanguageCode = l, Name = v, AudioEncoding = MP3 \<rparr> = Inr (a c)"
    by simp
  note IH = Cons.IH[OF e' d' s']
  have len': "length (chunkMap g') = length (chunkMap g)" by (simp add: g'_def)
  from Cons.prems(2) t have notin: "map_of ts j = None"
    by (simp add: map_of_eq_None_iff)
  have fold: "fold (task w v l) (t # ts) g = fold (task w v l) ts g'"
    by (simp add: step)
  show ?case
  proof (intro conjI allI impI)
    show "groupErr (fold (task w v l) (t # ts) g) = None"
      using IH by (simp only: fold)
    show "length (chunkMap (fold (task w v l) (t # ts) g)) = length (chunkMap g)"
      using IH len' by (simp only: fold)
  next
    fix i assume i: "i < length (chunkMap g)"
    then have "chunkMap (fold (task w v l) (t # ts) g) ! i =
        (case map_of ts i of None \<Rightarrow> chunkMap g' ! i | Some c \<Rightarrow> a c)"
      using IH len' by (simp only: fold)
    also have "\<dots> = (case map_of (t # ts) i of None \<Rightarrow> chunkMap g ! i | Some c \<Rightarrow> a c)"
      using i notin by (cases "i = j") (simp_all add: g'_def t split: option.splits)
    finally show "chunkMap (fold (task w v l) (t # ts) g) ! i =
        (case map_of (t # ts) i of None \<Rightarrow> chunkMap g ! i | Some c \<Rightarrow> a c)" .
  qed
qed

lemma order_set: "\<forall>ts. mset (order ts) = mset ts \<Longrightarrow> set (order ts) = set ts"
  by (metis set_mset_mset)

lemma order_distinct:
  assumes "\<forall>ts. mset (order ts) = mset ts"
  shows "distinct (map fst (order (enumerate 0 xs)))"
proof -
  have "mset (map fst (order (enumerate 0 xs))) = mset (map fst (enumerate 0 xs))"
    using assms by (metis mset_map)
  moreover have "distinct (map fst (enumerate 0 xs))" by simp
  ultimately show ?thesis by (metis mset_eq_imp_distinct_iff)
qed

lemma order_map_of:
  assumes "\<forall>ts. mset (order ts) = mset ts" and "i < length xs"
  shows "map_of (order (enumerate 0 xs)) i = Some (xs ! i)"
proof -
  have "(i, xs ! i) \<in> set (order (enumerate 0 xs))"
    using assms by (simp add: order_set in_set_enumerate_eq)
  then show ?thesis
    using order_distinct[OF assms(1)] by (simp add: map_of_eq_Some_iff)
qed


subsection \<open>C1: on success, slot \<open>i\<close> holds the audio of chunk \<open>i\<close>\<close>

text \<open>
  Claim C1. The service is a function \<open>f\<close> of the text, the voice and the language code;
  the voice and the language code are not empty. If the call for every chunk is made and
  succeeds (the context is never found cancelled, the client is created, and the service
  answers the request of chunk \<open>i\<close> with \<open>f (chunks ! i) voice languageCode\<close>), then
  \<open>synthesizeChunks\<close> returns no error and a sequence as long as \<open>chunks\<close> whose element
  \<open>i\<close> is \<open>f (chunks ! i) voice languageCode\<close>, for every order in which the tasks complete
  (every \<open>order\<close> that permutes the launched tasks).
\<close>

theorem synthesizeChunks_all_succeed:
  assumes "voice \<noteq> []" and "languageCode \<noteq> []"
    and "\<forall>k. ctxErr w k = None" and "NewClient w = None"
    and "\<forall>ts. mset (order ts) = mset ts"
    and "\<forall>i < length chunks.
           SynthesizeSpeech w False
             \<lparr> Text = chunks ! i, LanguageCode = languageCode, Name = voice, AudioEncoding = MP3 \<rparr>
           = Inr (f (chunks ! i) voice languageCode)"
  shows "snd (synthesizeChunks w order chunks voice languageCode) = None \<and>
         length (sequenceOf (fst (synthesizeChunks w order chunks voice languageCode))) = length chunks \<and>
         (\<forall>i < length chunks.
            sequenceOf (fst (synthesizeChunks w order chunks voice languageCode)) ! i =
              f (chunks ! i) voice languageCode)"
proof (cases "chunks = []")
  case True
  with assms show ?thesis by (simp add: synthesizeChunks_def sequenceOf_def)
next
  case False
  define g0 :: group where "g0 = \<lparr> chunkMap = replicate (length chunks) [], groupErr = None \<rparr>"
  define ts where "ts = order (enumerate 0 chunks)"
  define g where "g = fold (task w voice languageCode) ts g0"
  have calls: "\<forall>(i, c) \<in> set ts.
      SynthesizeSpeech w False \<lparr> Text = c, LanguageCode = languageCode, Name = voice, AudioEncoding = MP3 \<rparr>
        = Inr (f c voice languageCode)"
    using assms(5,6) by (auto simp: ts_def order_set in_set_enumerate_eq)
  have "groupErr g0 = None" by (simp add: g0_def)
  from fold_task_success[OF this order_distinct[OF assms(5)] calls[unfolded ts_def]]
  have ok: "groupErr g = None" and len: "length (chunkMap g) = length chunks"
    and nth: "\<forall>i < length chunks. chunkMap g ! i =
        (case map_of ts i of None \<Rightarrow> chunkMap g0 ! i | Some c \<Rightarrow> f c voice languageCode)"
    by (simp_all add: g_def ts_def g0_def)
  have res: "synthesizeChunks w order chunks voice languageCode = (Some (chunkMap g), None)"
    using False assms(1-4) ok
    by (simp add: synthesizeChunks_def launched_live g_def ts_def g0_def)
  have "\<forall>i < length chunks. chunkMap g ! i = f (chunks ! i) voice languageCode"
    using nth order_map_of[OF assms(5)] by (simp add: ts_def)
  with len show ?thesis by (simp add: res sequenceOf_def)
qed

theorem synthesizeChunks_all_succeed_witness:
  "snd (synthesizeChunks (liveWorld echoService) rev [''A'', ''B'', ''C''] ''v'' ''en-US'') = None \<and>
   sequenceOf (fst (synthesizeChunks (liveWorld echoService) rev [''A'', ''B'', ''C''] ''v'' ''en-US''))
     = [[65], [66], [67]]"
proof -
  have live: "\<forall>k. ctxErr (liveWorld echoService) k = None" by (simp add: liveWorld_def)
  have client: "NewClient (liveWorld echoService) = None" by (simp add: liveWorld_def)
  have perm: "\<forall>ts :: (nat \<times> string) list. mset (rev ts) = mset ts" by simp
  have calls: "\<forall>i < length [''A'', ''B'', ''C''].
      SynthesizeSpeech (liveWorld echoService) False
        \<lparr> Text = [''A'', ''B'', ''C''] ! i, LanguageCode = ''en-US'', Name = ''v'', AudioEncoding = MP3 \<rparr>
      = Inr (audioOf ([''A'', ''B'', ''C''] ! i) ''v'' ''en-US'')"
    by (simp add: liveWorld_def echoService_def)
  have v: "''v'' \<noteq> []" and l: "''en-US'' \<noteq> []" by simp_all
  from synthesizeChunks_all_succeed[of "''v''" "''en-US''" "liveWorld echoService" rev
      "[''A'', ''B'', ''C'']" audioOf, OF v l live client perm calls]
  have "snd (synthesizeChunks (liveWorld echoService) rev [''A'', ''B'', ''C''] ''v'' ''en-US'') = None"
    and len: "length (sequenceOf (fst (synthesizeChunks (liveWorld echoService) rev [''A'', ''B'', ''C''] ''v'' ''en-US''))) = 3"
    and nth: "\<forall>i < 3. sequenceOf (fst (synthesizeChunks (liveWorld echoService) rev [''A'', ''B'', ''C''] ''v'' ''en-US'')) ! i
        = audioOf ([''A'', ''B'', ''C''] ! i) ''v'' ''en-US''"
    by simp_all
  moreover have "sequenceOf (fst (synthesizeChunks (liveWorld echoService) rev [''A'', ''B'', ''C''] ''v'' ''en-US''))
     = [[65], [66], [67]]"
  proof (rule nth_equalityI)
    show "length (sequenceOf (fst (synthesizeChunks (liveWorld echoService) rev [''A'', ''B'', ''C''] ''v'' ''en-US''))) = length [[65], [66], [67 :: 8 word]]"
      using len by simp
    fix i assume "i < length (sequenceOf (fst (synthesizeChunks (liveWorld echoService) rev [''A'', ''B'', ''C''] ''v'' ''en-US'')))"
    then have "i < 3" using len by simp
    then have "i = 0 \<or> i = 1 \<or> i = 2" by arith
    then show "sequenceOf (fst (synthesizeChunks (liveWorld echoService) rev [''A'', ''B'', ''C''] ''v'' ''en-US'')) ! i = [[65], [66], [67]] ! i"
      using nth by (auto simp: audioOf_def)
  qed
  ultimately show ?thesis by simp
qed


subsection \<open>C2: one failing call fails the whole batch\<close>

text \<open>
  Claim C2. The voice and the language code are not empty and the context is never found
  cancelled. If the call for some chunk \<open>i\<close> fails (the service answers its request with
  an error while the group context is live; the first call to fail in a run is always
  made on a live group context), then \<open>synthesizeChunks\<close> returns a nil result together
  with an error, for every order in which the tasks complete: the audio of the tasks that
  succeeded is never returned.
\<close>

theorem synthesizeChunks_failure:
  assumes "voice \<noteq> []" and "languageCode \<noteq> []"
    and "\<forall>k. ctxErr w k = None"
    and "\<forall>ts. mset (order ts) = mset ts"
    and "i < length chunks"
    and "SynthesizeSpeech w False
           \<lparr> Text = chunks ! i, LanguageCode = languageCode, Name = voice, AudioEncoding = MP3 \<rparr>
         = Inl err"
  shows "fst (synthesizeChunks w order chunks voice languageCode) = None \<and>
         snd (synthesizeChunks w order chunks voice languageCode) \<noteq> None"
proof (cases "NewClient w")
  case (Some e)
  with assms show ?thesis by (auto simp: synthesizeChunks_def)
next
  case None
  define g0 :: group where "g0 = \<lparr> chunkMap = replicate (length chunks) [], groupErr = None \<rparr>"
  define ts where "ts = order (enumerate 0 chunks)"
  have "groupErr g0 = None" by (simp add: g0_def)
  moreover have "(i, chunks ! i) \<in> set ts"
    using assms(4,5) by (simp add: ts_def order_set in_set_enumerate_eq)
  ultimately obtain e' where "groupErr (fold (task w voice languageCode) ts g0) = Some e'"
    using fold_task_failure[OF _ _ assms(6)] by blast
  then show ?thesis
    using assms(1-3,5) None
    by (auto simp: synthesizeChunks_def launched_live ts_def g0_def)
qed


theorem synthesizeChunks_failure_witness:
  "fst (synthesizeChunks (liveWorld failingService) rev [''ok'', ''fine'', ''bad'', ''good'', ''last'']
          ''v'' ''en-US'') = None \<and>
   snd (synthesizeChunks (liveWorld failingService) rev [''ok'', ''fine'', ''bad'', ''good'', ''last'']
          ''v'' ''en-US'') \<noteq> None"
proof -
  have live: "\<forall>k. ctxErr (liveWorld failingService) k = None" by (simp add: liveWorld_def)
  have perm: "\<forall>ts :: (nat \<times> string) list. mset (rev ts) = mset ts" by simp
  have i: "2 < length [''ok'', ''fine'', ''bad'', ''good'', ''last'']" by simp
  have call: "SynthesizeSpeech (liveWorld failingService) False
        \<lparr> Text = [''ok'', ''fine'', ''bad'', ''good'', ''last''] ! 2, LanguageCode = ''en-US'',
          Name = ''v'', AudioEncoding = MP3 \<rparr>
      = Inl (Library ''unavailable'')"
    by (simp add: liveWorld_def failingService_def)
  have v: "''v'' \<noteq> []" and l: "''en-US'' \<noteq> []" by simp_all
  show ?thesis
    by (rule synthesizeChunks_failure[of "''v''" "''en-US''" "liveWorld failingService" rev 2
          "[''ok'', ''fine'', ''bad'', ''good'', ''last'']" "Library ''unavailable''",
          OF v l live perm i call])
qed

subsection \<open>C8: an empty chunk sequence\<close>

text \<open>
  Claim C8, as stated, is for every voice and every language code. With an empty voice
  the guard on the voice comes first and the call fails, also for an empty chunk
  sequence:
\<close>

theorem synthesizeChunks_empty_counterexample:
  "synthesizeChunks (liveWorld echoService) (\<lambda>ts. ts) [] [] ''en-US'' =
     (None, Some (WithTrace ErrEmptyVoice []))"
  by (simp add: synthesizeChunks_def liveWorld_def)


text \<open>
  Claim C8, amended. For every non-empty voice and every non-empty language code, a call
  with an empty chunk sequence on a context that is not cancelled returns a nil (empty)
  result and no error.
\<close>

theorem synthesizeChunks_empty:
  assumes "ctxErr w 0 = None" and "voice \<noteq> []" and "languageCode \<noteq> []"
  shows "synthesizeChunks w order [] voice languageCode = (None, None)"
  using assms by (simp add: synthesizeChunks_def)


theorem synthesizeChunks_empty_witness:
  "synthesizeChunks (liveWorld echoService) (\<lambda>ts. ts) [] ''en-US-Chirp3-HD-Orus'' ''en-US''
     = (None, None)"
proof -
  have live: "ctxErr (liveWorld echoService) 0 = None" by (simp add: liveWorld_def)
  have v: "''en-US-Chirp3-HD-Orus'' \<noteq> []" and l: "''en-US'' \<noteq> []" by simp_all
  show ?thesis by (rule synthesizeChunks_empty[OF live v l])
qed

subsection \<open>C10: the order of the guards\<close>

text \<open>
  Claim C10. \<open>synthesizeChunks\<close> checks, in this order, the context, the voice, the
  language code and the chunk sequence: a cancelled context returns the context's error
  whatever the other arguments are; otherwise an empty voice returns \<open>ErrEmptyVoice\<close>,
  whatever the language code and the chunks are (so also for an empty chunk sequence);
  otherwise an empty language code returns \<open>ErrEmptyLanguageCode\<close>, also for an empty
  chunk sequence; and only then does an empty chunk sequence return the empty result.
\<close>

theorem synthesizeChunks_guard_order:
  "(ctxErr w 0 = Some e \<longrightarrow>
      synthesizeChunks w order chunks voice languageCode = (None, Some e)) \<and>
   (ctxErr w 0 = None \<and> voice = [] \<longrightarrow>
      synthesizeChunks w order chunks voice languageCode = (None, Some (WithTrace ErrEmptyVoice []))) \<and>
   (ctxErr w 0 = None \<and> voice \<noteq> [] \<and> languageCode = [] \<longrightarrow>
      synthesizeChunks w order chunks voice languageCode =
        (None, Some (WithTrace ErrEmptyLanguageCode []))) \<and>
   (ctxErr w 0 = None \<and> voice \<noteq> [] \<and> languageCode \<noteq> [] \<and> chunks = [] \<longrightarrow>
      synthesizeChunks w order chunks voice languageCode = (None, None))"
  by (simp add: synthesizeChunks_def)


theorem synthesizeChunks_guard_order_witness:
  "synthesizeChunks ((liveWorld echoService) \<lparr> ctxErr := (\<lambda>k. Some Canceled) \<rparr>) (\<lambda>ts. ts) [] [] []
     = (None, Some Canceled) \<and>
   synthesizeChunks (liveWorld echoService) (\<lambda>ts. ts) [] [] []
     = (None, Some (WithTrace ErrEmptyVoice [])) \<and>
   synthesizeChunks (liveWorld echoService) (\<lambda>ts. ts) [] ''v'' []
     = (None, Some (WithTrace ErrEmptyLanguageCode [])) \<and>
   synthesizeChunks (liveWorld echoService) (\<lambda>ts. ts) [] ''v'' ''en-US''
     = (None, None)"
  using
    synthesizeChunks_guard_order[of "(liveWorld echoService) \<lparr> ctxErr := (\<lambda>k. Some Canceled) \<rparr>"
      Canceled "\<lambda>ts. ts" "[]" "[]" "[]"]
    synthesizeChunks_guard_order[of "liveWorld echoService" Canceled "\<lambda>ts. ts" "[]" "[]" "[]"]
    synthesizeChunks_guard_order[of "liveWorld echoService" Canceled "\<lambda>ts. ts" "[]" "''v''" "[]"]
    synthesizeChunks_guard_order[of "liveWorld echoService" Canceled "\<lambda>ts. ts" "[]" "''v''" "''en-US''"]
  by (simp add: liveWorld_def)

section \<open>Properties of the output loop\<close>

lemma Write_calls: "calls (Write wr b f) = calls f @ [b]"
  by (simp add: Write_def Let_def split: prod.splits option.splits)

lemma Write_content: "wr (length (calls f)) b = (length b, None) \<Longrightarrow>
  content (Write wr b f) = content f @ b \<and> logged (Write wr b f) = logged f"
  by (simp add: Write_def)

lemma fold_Write_calls: "calls (fold (Write wr) m f) = calls f @ m"
  by (induction m arbitrary: f) (simp_all add: Write_calls)

lemma fold_Write_content:
  "\<forall>k b. wr k b = (length b, None) \<Longrightarrow>
   content (fold (Write wr) m f) = content f @ concat m \<and> logged (fold (Write wr) m f) = logged f"
  by (induction m arbitrary: f) (simp_all add: Write_content)


subsection \<open>C9: what reaches the output file\<close>

text \<open>
  Claim C9, as stated, has the program write the concatenated audio once, in a single
  call of \<open>Write\<close>. The loop calls \<open>Write\<close> once per chunk: after a successful batch of
  two chunks the file has received two calls, not one call with the concatenation.
\<close>

theorem writeChunkMap_counterexample:
  "synthesizeChunks (liveWorld echoService) rev [''A'', ''B''] ''v'' ''en-US'' = (Some [[65], [66]], None) \<and>
   calls (writeChunkMap writesAll (Some [[65], [66]]) newFile) = [[65], [66]] \<and>
   calls (writeChunkMap writesAll (Some [[65], [66]]) newFile) \<noteq> [concat [[65], [66]]]"
  by (simp add: synthesizeChunks_def liveWorld_def echoService_def audioOf_def task_def
      writeChunkMap_def Write_def writesAll_def newFile_def enumerate_eq_zip)


text \<open>
  Claim C9, amended. After a successful batch the program calls \<open>Write\<close> once per chunk, in
  index order, each call with the audio bytes of that chunk and nothing else; when every
  call writes its payload in full, the bytes that have reached the file are the
  concatenation of the per-chunk audio in index order, with no separators, and nothing
  is logged.
\<close>

theorem writeChunkMap_per_chunk:
  "calls (writeChunkMap wr result f) = calls f @ sequenceOf result \<and>
   ((\<forall>k b. wr k b = (length b, None)) \<longrightarrow>
      content (writeChunkMap wr result f) = content f @ concat (sequenceOf result) \<and>
      logged (writeChunkMap wr result f) = logged f)"
  by (cases result) (simp_all add: writeChunkMap_def sequenceOf_def fold_Write_calls fold_Write_content)


theorem writeChunkMap_per_chunk_witness:
  "calls (writeChunkMap writesAll (Some [[65], [66], [67]]) newFile) = [[65], [66], [67]] \<and>
   content (writeChunkMap writesAll (Some [[65], [66], [67]]) newFile) = [65, 66, 67] \<and>
   logged (writeChunkMap writesAll (Some [[65], [66], [67]]) newFile) = []"
  using writeChunkMap_per_chunk[of writesAll "Some [[65], [66], [67]]" newFile]
  by (simp add: writesAll_def sequenceOf_def newFile_def)

end
